theory Spec2Isabelle
  imports Main "HOL-Library.AList" "HOL-Library.Char_ord" "HOL-Library.List_Lexorder"
begin

section \<open>Strings\<close>

text \<open>
  A Python \<open>str\<close> is modelled as a \<open>string\<close>; each \<open>char\<close> stands for the code point
  of the same number, so the model covers the strings whose code points are below 256.
  On that range the regular expression class \<open>\d\<close> is exactly \<open>0\<close>..\<open>9\<close>, and
  \<open>str.isspace\<close>, \<open>str.lower\<close> are the tables written out below. The variable grammar
  alone is modelled over any type of characters, with the class \<open>\d\<close> as a parameter.
\<close>

definition is_digit :: "char \<Rightarrow> bool" where
  "is_digit c = (let n = (of_char c :: nat) in 48 \<le> n \<and> n \<le> 57)"

definition is_space :: "char \<Rightarrow> bool" where
  "is_space c = (let n = (of_char c :: nat) in
     (9 \<le> n \<and> n \<le> 13) \<or> (28 \<le> n \<and> n \<le> 32) \<or> n = 133 \<or> n = 160)"

definition lower_char :: "char \<Rightarrow> char" where
  "lower_char c = (let n = (of_char c :: nat) in
     if (65 \<le> n \<and> n \<le> 90) \<or> (192 \<le> n \<and> n \<le> 222 \<and> n \<noteq> 215)
     then char_of (n + 32) else c)"

definition lower :: "string \<Rightarrow> string" where
  "lower s = map lower_char s"

text \<open>\<open>s.strip()\<close>: leading and trailing whitespace removed.\<close>

definition strip :: "string \<Rightarrow> string" where
  "strip s = rev (dropWhile is_space (rev (dropWhile is_space s)))"

text \<open>The rest of \<open>s\<close> after the literal \<open>p\<close>, when \<open>s\<close> starts with \<open>p\<close>.\<close>

fun strip_prefix :: "'a list \<Rightarrow> 'a list \<Rightarrow> 'a list option" where
  "strip_prefix [] s = Some s"
| "strip_prefix (p # ps) [] = None"
| "strip_prefix (p # ps) (c # cs) = (if p = c then strip_prefix ps cs else None)"

text \<open>
  \<open>s.split(sep)\<close> for a non-empty separator: the string is scanned from the left, every
  occurrence of \<open>sep\<close> found at the current position ends a piece and is skipped (so
  occurrences do not overlap), and the last piece is what remains. \<open>acc\<close> holds the
  current piece, reversed.
\<close>

function split_acc :: "char \<Rightarrow> string \<Rightarrow> string \<Rightarrow> string \<Rightarrow> string list" where
  "split_acc s0 st acc [] = [rev acc]"
| "split_acc s0 st acc (c # cs) =
     (case strip_prefix (s0 # st) (c # cs) of
        Some rest \<Rightarrow> rev acc # split_acc s0 st [] rest
      | None \<Rightarrow> split_acc s0 st (c # acc) cs)"
  by pat_completeness auto
termination
proof (relation "measure (\<lambda>(s0, st, acc, s). length s)")
  fix s0 st acc c cs rest
  assume found: "strip_prefix (s0 # st) (c # cs) = Some rest"
  have shorter: "strip_prefix p s = Some r \<Longrightarrow> length r + length p = length s" for p s r
    by (induction p s rule: strip_prefix.induct) (auto split: if_splits)
  from shorter [OF found]
  show "((s0, st, [], rest), (s0, st, acc, c # cs)) \<in> measure (\<lambda>(s0, st, acc, s). length s)"
    by simp
qed simp_all

text \<open>
  \<open>split s0 st s\<close> is \<open>s.split(sep)\<close> for the separator \<open>sep = s0 # st\<close>. Python
  raises \<open>ValueError\<close> for an empty separator; every call in the source passes a
  constant, non-empty one, and the model gives the separator as head and tail.
\<close>

definition split :: "char \<Rightarrow> string \<Rightarrow> string \<Rightarrow> string list" where
  "split s0 st s = split_acc s0 st [] s"

section \<open>The variable grammar\<close>

text \<open>
  \<^verbatim>\<open>_VAR_RE = re.compile(
    r"^(?P<group>DP\d{2}PR?|DP\d{2})_(?P<line>\d{4})(?P<suffix>PEA|PMA|PE|PM|EA|MA|E|M)$")\<close>

  The matcher follows the backtracking search of \<open>re.match\<close>: the alternatives of a
  group are tried from left to right, \<open>R?\<close> prefers to take the \<open>R\<close>, and the first
  choice for which the rest of the pattern matches gives the result. Without the
  \<open>MULTILINE\<close> flag \<open>$\<close> matches at the end of the string and also just before a line
  feed that is the last character of the string.

  The pattern is matched against strings over any type of characters: \<open>lit\<close> gives the
  character that a literal of the pattern stands for, and \<open>digit\<close> is the class \<open>\d\<close>.
  In Python a character is a code point, and the pattern is a \<open>str\<close> pattern compiled
  without \<open>re.ASCII\<close>, so \<open>\d\<close> is the class of the Unicode decimal digits, a table of
  the library, which is why the class is a parameter here.
\<close>

fun take_digits :: "('a \<Rightarrow> bool) \<Rightarrow> nat \<Rightarrow> 'a list \<Rightarrow> ('a list \<times> 'a list) option" where
  "take_digits digit 0 s = Some ([], s)"
| "take_digits digit (Suc n) [] = None"
| "take_digits digit (Suc n) (c # cs) =
     (if digit c
      then (case take_digits digit n cs of Some (ds, r) \<Rightarrow> Some (c # ds, r) | None \<Rightarrow> None)
      else None)"

definition at_end :: "(char \<Rightarrow> 'a) \<Rightarrow> 'a list \<Rightarrow> bool" where
  "at_end lit r = (r = [] \<or> r = [lit (CHR 0x0A)])"

definition suffix_alternatives :: "string list" where
  "suffix_alternatives = [''PEA'', ''PMA'', ''PE'', ''PM'', ''EA'', ''MA'', ''E'', ''M'']"

definition match_suffix :: "(char \<Rightarrow> 'a) \<Rightarrow> 'a list \<Rightarrow> 'a list option" where
  "match_suffix lit r =
     find (\<lambda>x. case strip_prefix x r of Some r' \<Rightarrow> at_end lit r' | None \<Rightarrow> False)
       (map (map lit) suffix_alternatives)"

definition match_line_suffix ::
  "(char \<Rightarrow> 'a) \<Rightarrow> ('a \<Rightarrow> bool) \<Rightarrow> 'a list \<Rightarrow> ('a list \<times> 'a list) option" where
  "match_line_suffix lit digit r =
     (case strip_prefix (map lit ''_'') r of
        None \<Rightarrow> None
      | Some r1 \<Rightarrow>
          (case take_digits digit 4 r1 of
             None \<Rightarrow> None
           | Some (line, r2) \<Rightarrow>
               (case match_suffix lit r2 of None \<Rightarrow> None | Some sfx \<Rightarrow> Some (line, sfx))))"

text \<open>The ways the group can match at the start of the string, in the order tried.\<close>

definition group_alternatives ::
  "(char \<Rightarrow> 'a) \<Rightarrow> ('a \<Rightarrow> bool) \<Rightarrow> 'a list \<Rightarrow> ('a list \<times> 'a list) list" where
  "group_alternatives lit digit s =
     (case strip_prefix (map lit ''DP'') s of
        None \<Rightarrow> []
      | Some r0 \<Rightarrow>
          (case take_digits digit 2 r0 of
             None \<Rightarrow> []
           | Some (dd, r1) \<Rightarrow>
               (case strip_prefix (map lit ''P'') r1 of
                  None \<Rightarrow> []
                | Some r2 \<Rightarrow>
                    (case strip_prefix (map lit ''R'') r2 of
                       None \<Rightarrow> []
                     | Some r3 \<Rightarrow> [(map lit ''DP'' @ dd @ map lit ''PR'', r3)])
                    @ [(map lit ''DP'' @ dd @ map lit ''P'', r2)])
               @ [(map lit ''DP'' @ dd, r1)]))"

fun first_match ::
  "(char \<Rightarrow> 'a) \<Rightarrow> ('a \<Rightarrow> bool) \<Rightarrow> ('a list \<times> 'a list) list
     \<Rightarrow> ('a list \<times> 'a list \<times> 'a list) option" where
  "first_match lit digit [] = None"
| "first_match lit digit ((g, r) # alts) =
     (case match_line_suffix lit digit r of
        Some (line, sfx) \<Rightarrow> Some (g, line, sfx)
      | None \<Rightarrow> first_match lit digit alts)"

text \<open>\<open>_VAR_RE.match(var)\<close>: \<open>None\<close>, or the groups \<open>(group, line, suffix)\<close>.\<close>

definition re_match ::
  "(char \<Rightarrow> 'a) \<Rightarrow> ('a \<Rightarrow> bool) \<Rightarrow> 'a list \<Rightarrow> ('a list \<times> 'a list \<times> 'a list) option" where
  "re_match lit digit code = first_match lit digit (group_alternatives lit digit code)"

text \<open>
  The rest of the model works on strings over the code points below 256, where the
  class of the decimal digits is \<open>0\<close> to \<open>9\<close>.
\<close>

definition VAR_RE_match :: "string \<Rightarrow> (string \<times> string \<times> string) option" where
  "VAR_RE_match var = re_match (\<lambda>c. c) is_digit var"

text \<open>\<open>_SUFFIX_MAP.get(suffix, suffix)\<close>\<close>

definition SUFFIX_MAP :: "(string \<times> string) list" where
  "SUFFIX_MAP =
    [(''E'', ''estimate''),
     (''M'', ''moe''),
     (''PE'', ''percent_estimate''),
     (''PM'', ''percent_moe''),
     (''EA'', ''estimate_annotation''),
     (''MA'', ''moe_annotation''),
     (''PEA'', ''percent_estimate_annotation''),
     (''PMA'', ''percent_moe_annotation'')]"

definition measure_of :: "string \<Rightarrow> string" where
  "measure_of sfx = (case map_of SUFFIX_MAP sfx of Some m \<Rightarrow> m | None \<Rightarrow> sfx)"

text \<open>\<open>f"{parts['group']}_{parts['line']}"\<close>\<close>

definition base_of :: "string \<Rightarrow> string \<Rightarrow> string" where
  "base_of g line = g @ ''_'' @ line"

section \<open>The catalog and the families\<close>

text \<open>
  The catalog is the \<open>variables\<close> object of the fetched JSON document: a dictionary from
  variable code to the variable's description, in document order. Python dictionaries
  keep insertion order, so a dictionary is an association list; \<open>AList.update\<close> is the
  assignment \<open>d[k] = v\<close> (an existing key keeps its place, a new key goes to the end).
  \<open>info.get(k)\<close> is \<open>None\<close> for an absent key and for a JSON \<open>null\<close>; the fields read
  by the code are strings otherwise.
\<close>

record info =
  info_label :: "string option"
  info_concept :: "string option"
  info_group :: "string option"
  info_predicateType :: "string option"
  info_attributes :: "string option"

type_synonym variables = "(string \<times> info) list"

text \<open>\<open>fam["meta"]\<close>, a member \<open>fam["members"][measure]\<close>, and the family itself.\<close>

record meta =
  base :: string
  meta_group :: "string option"
  meta_concept :: "string option"
  meta_label :: "string option"

record member =
  var :: string
  member_label :: "string option"
  member_predicateType :: "string option"
  member_attributes :: "string option"

record family =
  meta :: meta
  members :: "(string \<times> member) list"

definition new_meta :: "string \<Rightarrow> info \<Rightarrow> meta" where
  "new_meta b i =
     \<lparr>base = b, meta_group = info_group i, meta_concept = info_concept i,
      meta_label = info_label i\<rparr>"

definition new_member :: "string \<Rightarrow> info \<Rightarrow> member" where
  "new_member v i =
     \<lparr>var = v, member_label = info_label i, member_predicateType = info_predicateType i,
      member_attributes = info_attributes i\<rparr>"

text \<open>
  One round of the first loop of \<open>__init__\<close>. \<open>families[base]\<close> creates the entry
  \<open>{"meta": None, "members": {}}\<close> for a new base, and the next statement replaces
  that \<open>None\<close> by the meta of the current variable, so a new entry is created with its
  meta at once; an existing entry keeps its meta.
\<close>

definition add_variable :: "(string \<times> family) list \<Rightarrow> string \<times> info \<Rightarrow> (string \<times> family) list" where
  "add_variable fams vi =
     (case VAR_RE_match (fst vi) of
        None \<Rightarrow> fams
      | Some (g, line, sfx) \<Rightarrow>
          (let b = base_of g line;
               measure = measure_of sfx;
               fam = (case map_of fams b of
                        None \<Rightarrow> \<lparr>meta = new_meta b (snd vi), members = []\<rparr>
                      | Some f \<Rightarrow> f)
           in AList.update b
                (fam\<lparr>members := AList.update measure (new_member (fst vi) (snd vi)) (members fam)\<rparr>)
                fams))"

definition build_families :: "variables \<Rightarrow> (string \<times> family) list" where
  "build_families variables = foldl add_variable [] variables"

section \<open>The label tree\<close>

text \<open>
  The tree is a nested Python dictionary. Its nodes, the \<open>_families_\<close> bags, the
  families in a bag and their \<open>meta\<close> and \<open>members\<close> dictionaries are all plain
  dictionaries in one structure, and \<open>subtree\<close> walks through any of them, so the tree
  is modelled as a value of the type of such nested dictionaries.

  In Python the dictionary of a family in the tree is the object that \<open>_families\<close> and
  the two indexes hold; here the tree holds a copy of its value. The tree is the same
  either way. Only an insertion that walks into a family already stored, which takes
  the token \<open>_families_\<close> in a path, shows the difference: it adds keys to that family
  in Python, and then \<open>family\<close>, \<open>by_group\<close> and \<open>by_attribute\<close> return the family
  with those added keys, while the entries made by the first loop are never replaced.
\<close>

datatype pyval = PNone | PStr string | PDict "(string \<times> pyval) list"

datatype error = AttributeError | TypeError

definition opt_val :: "string option \<Rightarrow> pyval" where
  "opt_val x = (case x of None \<Rightarrow> PNone | Some s \<Rightarrow> PStr s)"

definition meta_val :: "meta \<Rightarrow> pyval" where
  "meta_val m =
     PDict [(''base'', PStr (base m)),
            (''group'', opt_val (meta_group m)),
            (''concept'', opt_val (meta_concept m)),
            (''label'', opt_val (meta_label m))]"

definition member_val :: "member \<Rightarrow> pyval" where
  "member_val x =
     PDict [(''var'', PStr (var x)),
            (''label'', opt_val (member_label x)),
            (''predicateType'', opt_val (member_predicateType x)),
            (''attributes'', opt_val (member_attributes x))]"

text \<open>The family as the dictionary \<open>{"meta": {...}, "members": {...}}\<close> it is in Python.\<close>

definition family_val :: "family \<Rightarrow> pyval" where
  "family_val f =
     PDict [(''meta'', meta_val (meta f)),
            (''members'', PDict (map (\<lambda>kv. (fst kv, member_val (snd kv))) (members f)))]"

text \<open>Lines 87 to 95: the path of a family.\<close>

definition label_tokens :: "string \<Rightarrow> string list" where
  "label_tokens lab = map strip (filter (\<lambda>p. strip p \<noteq> []) (split (CHR ''!'') ''!'' lab))"

definition family_path :: "string \<Rightarrow> family \<Rightarrow> string list" where
  "family_path b fam =
     (let lab = (case meta_label (meta fam) of None \<Rightarrow> [] | Some s \<Rightarrow> s);
          path = label_tokens lab;
          path = (if path \<noteq> [] \<and> lower (hd path) \<in> {''estimate'', ''percent''}
                  then tl path else path)
      in if path = []
         then [case meta_concept (meta fam) of
                 Some c \<Rightarrow> if c \<noteq> [] then c
                            else (case meta_group (meta fam) of
                                    Some g \<Rightarrow> if g \<noteq> [] then g else b
                                  | None \<Rightarrow> b)
               | None \<Rightarrow> (case meta_group (meta fam) of
                            Some g \<Rightarrow> if g \<noteq> [] then g else b
                          | None \<Rightarrow> b)]
         else path)"

definition FAMILIES :: string where
  "FAMILIES = ''_families_''"

text \<open>
  Lines 98 to 102. \<open>node.setdefault(token, {})\<close> returns the value already stored under
  \<open>token\<close>, whatever it is, and stores and returns a new dictionary when there is none;
  on a value that is not a dictionary it raises \<open>AttributeError\<close>. The last line
  assigns into the bag, which raises \<open>TypeError\<close> when the value stored under
  \<open>_families_\<close> is not a dictionary. The function returns the node after the
  insertion below it.
\<close>

fun tree_insert :: "pyval \<Rightarrow> string list \<Rightarrow> string \<Rightarrow> pyval \<Rightarrow> error + pyval" where
  "tree_insert (PDict kvs) [] b fam =
     (case map_of kvs FAMILIES of
        None \<Rightarrow> Inr (PDict (AList.update FAMILIES (PDict [(b, fam)]) kvs))
      | Some (PDict bag) \<Rightarrow> Inr (PDict (AList.update FAMILIES (PDict (AList.update b fam bag)) kvs))
      | Some _ \<Rightarrow> Inl TypeError)"
| "tree_insert (PDict kvs) (token # path) b fam =
     (case tree_insert (case map_of kvs token of None \<Rightarrow> PDict [] | Some child \<Rightarrow> child)
             path b fam of
        Inl e \<Rightarrow> Inl e
      | Inr child \<Rightarrow> Inr (PDict (AList.update token child kvs)))"
| "tree_insert _ _ b fam = Inl AttributeError"

definition tree_step :: "error + pyval \<Rightarrow> string \<times> family \<Rightarrow> error + pyval" where
  "tree_step acc bf =
     (case acc of
        Inl e \<Rightarrow> Inl e
      | Inr root \<Rightarrow> tree_insert root (family_path (fst bf) (snd bf)) (fst bf) (family_val (snd bf)))"

definition build_tree :: "(string \<times> family) list \<Rightarrow> error + pyval" where
  "build_tree fams = foldl tree_step (Inr (PDict [])) fams"

section \<open>The indexes and the object\<close>

text \<open>\<open>self._by_group[fam["meta"]["group"]].append(fam)\<close> on a \<open>defaultdict(list)\<close>.\<close>

definition group_step ::
  "(string option \<times> family list) list \<Rightarrow> string \<times> family \<Rightarrow> (string option \<times> family list) list" where
  "group_step idx bf =
     AList.map_default (meta_group (meta (snd bf))) [snd bf] (\<lambda>fs. fs @ [snd bf]) idx"

text \<open>The second pass over the catalog, lines 112 to 122.\<close>

definition attribute_codes :: "string \<Rightarrow> string list" where
  "attribute_codes attrs = filter (\<lambda>a. a \<noteq> []) (map strip (split (CHR '','') [] attrs))"

definition attribute_step ::
  "(string \<times> family) list \<Rightarrow> (string \<times> family option) list \<Rightarrow> string \<times> info
     \<Rightarrow> (string \<times> family option) list" where
  "attribute_step fams idx vi =
     (case info_attributes (snd vi) of
        None \<Rightarrow> idx
      | Some attrs \<Rightarrow>
          if attrs = [] then idx
          else foldl (\<lambda>idx a.
                 case VAR_RE_match (fst vi) of
                   None \<Rightarrow> idx
                 | Some (g, line, sfx) \<Rightarrow> AList.update a (map_of fams (base_of g line)) idx)
               idx (attribute_codes attrs))"

record cpt =
  raw :: variables
  families :: "(string \<times> family) list"
  tree :: pyval
  by_group_index :: "(string option \<times> family list) list"
  by_attribute_index :: "(string \<times> family option) list"

text \<open>
  \<open>__init__\<close> after the fetch: the catalog is the argument. An exception raised while
  the tree is built leaves no object.
\<close>

definition init :: "variables \<Rightarrow> error + cpt" where
  "init variables =
     (let fams = build_families variables in
      case build_tree fams of
        Inl e \<Rightarrow> Inl e
      | Inr root \<Rightarrow>
          Inr \<lparr>raw = variables,
               families = fams,
               tree = root,
               by_group_index = foldl group_step [] fams,
               by_attribute_index = foldl (attribute_step fams) [] variables\<rparr>)"

section \<open>The public queries\<close>

text \<open>\<open>node.get(token)\<close> on a dictionary: the stored value, \<open>None\<close> when there is none.\<close>

definition dict_get :: "(string \<times> pyval) list \<Rightarrow> string \<Rightarrow> pyval" where
  "dict_get kvs k = (case map_of kvs k of None \<Rightarrow> PNone | Some v \<Rightarrow> v)"

text \<open>
  The loop of \<open>subtree\<close>. A string or \<open>None\<close> has no method \<open>get\<close>; the loop never calls
  it on \<open>None\<close>, because it returns as soon as a step gives \<open>None\<close>.
\<close>

fun walk :: "pyval \<Rightarrow> string list \<Rightarrow> error + pyval" where
  "walk node [] = Inr node"
| "walk (PDict kvs) (token # path) =
     (case dict_get kvs token of PNone \<Rightarrow> Inr PNone | v \<Rightarrow> walk v path)"
| "walk _ (token # path) = Inl AttributeError"

datatype path_arg = Tokens "string list" | Slashed string

definition path_tokens :: "path_arg \<Rightarrow> string list" where
  "path_tokens p =
     (case p of
        Tokens ts \<Rightarrow> ts
      | Slashed s \<Rightarrow> filter (\<lambda>t. t \<noteq> []) (split (CHR ''/'') [] s))"

definition subtree :: "cpt \<Rightarrow> path_arg \<Rightarrow> error + pyval" where
  "subtree self p = walk (tree self) (path_tokens p)"

definition truthy :: "pyval \<Rightarrow> bool" where
  "truthy v = (case v of PNone \<Rightarrow> False | PStr s \<Rightarrow> s \<noteq> [] | PDict kvs \<Rightarrow> kvs \<noteq> [])"

text \<open>\<open>node.get("_families_", {})\<close> after \<open>if not node: return {}\<close>.\<close>

definition families_at :: "cpt \<Rightarrow> path_arg \<Rightarrow> error + pyval" where
  "families_at self p =
     (case subtree self p of
        Inl e \<Rightarrow> Inl e
      | Inr node \<Rightarrow>
          if \<not> truthy node then Inr (PDict [])
          else (case node of
                  PDict kvs \<Rightarrow>
                    (case map_of kvs FAMILIES of None \<Rightarrow> Inr (PDict []) | Some v \<Rightarrow> Inr v)
                | _ \<Rightarrow> Inl AttributeError))"

definition family_by_code :: "cpt \<Rightarrow> string \<Rightarrow> family option" where
  "family_by_code self code =
     (case VAR_RE_match code of
        None \<Rightarrow> None
      | Some (g, line, sfx) \<Rightarrow> map_of (families self) (base_of g line))"

definition by_group :: "cpt \<Rightarrow> string \<Rightarrow> family list" where
  "by_group self g =
     (case map_of (by_group_index self) (Some g) of None \<Rightarrow> [] | Some fs \<Rightarrow> fs)"

definition by_attribute :: "cpt \<Rightarrow> string \<Rightarrow> family option" where
  "by_attribute self a =
     (case map_of (by_attribute_index self) a of None \<Rightarrow> None | Some f \<Rightarrow> f)"

section \<open>The XML dump\<close>

text \<open>
  \<open>dump_xml\<close> builds a tree of \<open>xml.etree\<close> elements and hands it to the library, which
  writes the text of the document. The model is the element tree: tag, attributes in
  the order given, text (\<open>None\<close> when not set) and children. An attribute value or a
  text is the Python value the code stores there.
\<close>

datatype xml = Element string "(string \<times> pyval) list" pyval "xml list"

text \<open>\<open>str(v)\<close>; for a dictionary it is \<open>repr(v)\<close>.\<close>

definition hex_digit :: "nat \<Rightarrow> char" where
  "hex_digit n = ''0123456789abcdef'' ! (n mod 16)"

definition repr_char :: "char \<Rightarrow> char \<Rightarrow> string" where
  "repr_char q c =
     (let n = (of_char c :: nat) in
      if c = q \<or> c = CHR 0x5C then [CHR 0x5C, c]
      else if n = 9 then [CHR 0x5C, CHR ''t'']
      else if n = 10 then [CHR 0x5C, CHR ''n'']
      else if n = 13 then [CHR 0x5C, CHR ''r'']
      else if n < 32 \<or> (127 \<le> n \<and> n \<le> 160) \<or> n = 173
           then [CHR 0x5C, CHR ''x'', hex_digit (n div 16), hex_digit n]
      else [c])"

definition repr_str :: "string \<Rightarrow> string" where
  "repr_str s =
     (let q = (if CHR 0x27 \<in> set s \<and> CHR 0x22 \<notin> set s then CHR 0x22 else CHR 0x27)
      in [q] @ concat (map (repr_char q) s) @ [q])"

fun join :: "string \<Rightarrow> string list \<Rightarrow> string" where
  "join sep [] = []"
| "join sep [x] = x"
| "join sep (x # y # ys) = x @ sep @ join sep (y # ys)"

fun py_repr :: "pyval \<Rightarrow> string" where
  "py_repr PNone = ''None''"
| "py_repr (PStr s) = repr_str s"
| "py_repr (PDict kvs) =
     ''{'' @ join '', '' (map (\<lambda>kv. repr_str (fst kv) @ '': '' @ py_repr (snd kv)) kvs) @ ''}''"

definition py_str :: "pyval \<Rightarrow> string" where
  "py_str v = (case v of PStr s \<Rightarrow> s | _ \<Rightarrow> py_repr v)"

text \<open>\<open>d.get(k, default)\<close>: the default only when the key is absent.\<close>

definition get_default :: "(string \<times> pyval) list \<Rightarrow> string \<Rightarrow> pyval \<Rightarrow> pyval" where
  "get_default kvs k d = (case map_of kvs k of None \<Rightarrow> d | Some v \<Rightarrow> v)"

text \<open>The results of a loop whose rounds may raise: the first exception, or all results.\<close>

fun collect :: "(error + 'a) list \<Rightarrow> error + 'a list" where
  "collect [] = Inr []"
| "collect (Inl e # rs) = Inl e"
| "collect (Inr x # rs) = (case collect rs of Inl e \<Rightarrow> Inl e | Inr xs \<Rightarrow> Inr (x # xs))"

text \<open>Lines 255 to 270: one \<open>Member\<close> element.\<close>

definition member_xml :: "bool \<Rightarrow> bool \<Rightarrow> string \<Rightarrow> pyval \<Rightarrow> error + xml" where
  "member_xml include_labels include_attributes mname minfo =
     (case minfo of
        PDict kvs \<Rightarrow>
          (let mem_attr = [(''measure'', PStr mname),
                           (''var'', PStr (py_str (get_default kvs ''var'' (PStr [])))),
                           (''predicateType'',
                              PStr (py_str (get_default kvs ''predicateType'' (PStr []))))];
               lbl = (if include_labels \<and> truthy (dict_get kvs ''label'')
                      then [Element ''Label'' [] (dict_get kvs ''label'') []] else [])
           in if include_attributes \<and> truthy (dict_get kvs ''attributes'')
              then (case dict_get kvs ''attributes'' of
                      PStr attrs \<Rightarrow>
                        Inr (Element ''Member'' mem_attr PNone
                              (lbl @ [Element ''Attributes'' [] PNone
                                 (map (\<lambda>a. Element ''Attr'' [] (PStr a) [])
                                    (map strip (filter (\<lambda>x. strip x \<noteq> [])
                                       (split (CHR '','') [] attrs))))]))
                    | _ \<Rightarrow> Inl AttributeError)
              else Inr (Element ''Member'' mem_attr PNone lbl))
      | _ \<Rightarrow> Inl AttributeError)"

text \<open>Lines 236 to 270: one \<open>Family\<close> element.\<close>

definition family_xml :: "bool \<Rightarrow> bool \<Rightarrow> string \<Rightarrow> pyval \<Rightarrow> error + xml" where
  "family_xml include_labels include_attributes b fam =
     (case fam of
        PDict fkvs \<Rightarrow>
          (case get_default fkvs ''meta'' (PDict []) of
             PDict mkvs \<Rightarrow>
               (let fam_attr = [(''base'', get_default mkvs ''base'' (PStr b)),
                                (''group'', PStr (py_str (get_default mkvs ''group'' (PStr [])))),
                                (''concept'',
                                   PStr (py_str (get_default mkvs ''concept'' (PStr []))))];
                    lab = (if include_labels
                           then [Element ''FamilyLabel'' []
                                   (if truthy (dict_get mkvs ''label'')
                                    then dict_get mkvs ''label'' else PStr []) []]
                           else [])
                in case get_default fkvs ''members'' (PDict []) of
                     PDict mems \<Rightarrow>
                       (case collect (map (\<lambda>kv. member_xml include_labels include_attributes
                                                  (fst kv) (snd kv))
                                        (sort_key fst mems)) of
                          Inl e \<Rightarrow> Inl e
                        | Inr ms \<Rightarrow> Inr (Element ''Family'' fam_attr PNone (lab @ ms)))
                   | _ \<Rightarrow> Inl AttributeError)
           | _ \<Rightarrow> Inl AttributeError)
      | _ \<Rightarrow> Inl AttributeError)"

text \<open>
  \<open>_append_node_xml\<close>: the elements appended to \<open>parent\<close> for the dictionary \<open>node\<close>,
  child \<open>Node\<close> elements sorted by key first, \<open>Family\<close> elements sorted by base after
  them.
\<close>

function append_node_xml :: "bool \<Rightarrow> bool \<Rightarrow> pyval \<Rightarrow> error + xml list" where
  "append_node_xml include_labels include_attributes (PDict kvs) =
     (case collect
             (map (\<lambda>kv. case snd kv of
                          PDict sub \<Rightarrow>
                            (case append_node_xml include_labels include_attributes (snd kv) of
                               Inl e \<Rightarrow> Inl e
                             | Inr cs \<Rightarrow> Inr (Element ''Node'' [(''name'', PStr (fst kv))] PNone cs))
                        | _ \<Rightarrow> Inr (Element ''Node'' [(''name'', PStr (fst kv))] PNone []))
                (sort_key fst (filter (\<lambda>kv. fst kv \<noteq> FAMILIES) kvs))) of
        Inl e \<Rightarrow> Inl e
      | Inr nodes \<Rightarrow>
          (let fams = dict_get kvs FAMILIES in
           if truthy fams
           then (case fams of
                   PDict fs \<Rightarrow>
                     (case collect (map (\<lambda>kv. family_xml include_labels include_attributes
                                                (fst kv) (snd kv))
                                      (sort_key fst fs)) of
                        Inl e \<Rightarrow> Inl e
                      | Inr fels \<Rightarrow> Inr (nodes @ fels))
                 | _ \<Rightarrow> Inl AttributeError)
           else Inr nodes))"
| "append_node_xml include_labels include_attributes PNone = Inl AttributeError"
| "append_node_xml include_labels include_attributes (PStr s) = Inl AttributeError"
  by pat_completeness auto
termination
proof (relation "measure (\<lambda>(il, ia, node). size node)")
  fix kvs :: "(string \<times> pyval) list" and kv :: "string \<times> pyval"
  fix il ia :: bool
  assume "kv \<in> set (sort_key fst (filter (\<lambda>kv. fst kv \<noteq> FAMILIES) kvs))"
  then have mem: "kv \<in> set kvs"
    by simp
  have "size (snd kv) < Suc (size_list (size_prod (\<lambda>_. 0) size) kvs)"
    using mem by (induction kvs) (auto simp: less_Suc_eq_le)
  then show "((il, ia, snd kv), (il, ia, PDict kvs)) \<in> measure (\<lambda>(il, ia, node). size node)"
    by simp
qed simp

text \<open>
  \<open>dump_xml\<close> up to the serialisation: the root element with the elements of the tree.
  Writing the text, with or without indentation, is the library's part.
\<close>

definition dump_xml :: "cpt \<Rightarrow> string \<Rightarrow> bool \<Rightarrow> bool \<Rightarrow> error + xml" where
  "dump_xml self root_name include_labels include_attributes =
     (case append_node_xml include_labels include_attributes (tree self) of
        Inl e \<Rightarrow> Inl e
      | Inr els \<Rightarrow> Inr (Element root_name [] PNone els))"

section \<open>Notions used in the statements\<close>

text \<open>
  The base and the measure name the first loop computes for a variable code, \<open>None\<close> for
  a code the grammar rejects.
\<close>

definition var_base :: "string \<Rightarrow> string option" where
  "var_base v = (case VAR_RE_match v of None \<Rightarrow> None | Some (g, line, sfx) \<Rightarrow> Some (base_of g line))"

definition var_measure :: "string \<Rightarrow> string option" where
  "var_measure v = (case VAR_RE_match v of None \<Rightarrow> None | Some (g, line, sfx) \<Rightarrow> Some (measure_of sfx))"

text \<open>
  The group tokens of the grammar: \<open>DP\<close>, two of the digits \<open>0\<close> to \<open>9\<close>, and then nothing,
  \<open>P\<close> or \<open>PR\<close>.
\<close>

definition group_form :: "(char \<Rightarrow> 'a) \<Rightarrow> 'a list \<Rightarrow> bool" where
  "group_form lit g \<longleftrightarrow>
     (\<exists>d1 d2 q. d1 \<in> set ''0123456789'' \<and> d2 \<in> set ''0123456789'' \<and>
        (q = [] \<or> q = ''P'' \<or> q = ''PR'') \<and> g = map lit (''DP'' @ [d1, d2] @ q))"

text \<open>The same with any two characters of the class \<open>\d\<close> in the place of the digits.\<close>

definition group_shape :: "(char \<Rightarrow> 'a) \<Rightarrow> ('a \<Rightarrow> bool) \<Rightarrow> 'a list \<Rightarrow> bool" where
  "group_shape lit digit g \<longleftrightarrow>
     (\<exists>dd q. length dd = 2 \<and> list_all digit dd \<and> (q = [] \<or> q = ''P'' \<or> q = ''PR'') \<and>
        g = map lit ''DP'' @ dd @ map lit q)"

text \<open>
  The grammar in the words of the specification: a group token that is two letters and
  two digits, or that form and one more letter, then an underscore, four digits and one
  of the eight suffixes, and nothing else.
\<close>

definition is_letter :: "char \<Rightarrow> bool" where
  "is_letter c = (let n = (of_char c :: nat) in (65 \<le> n \<and> n \<le> 90) \<or> (97 \<le> n \<and> n \<le> 122))"

definition spec_group_form :: "string \<Rightarrow> bool" where
  "spec_group_form g \<longleftrightarrow>
     (\<exists>a b d1 d2. is_letter a \<and> is_letter b \<and> is_digit d1 \<and> is_digit d2 \<and>
        (g = [a, b, d1, d2] \<or> (\<exists>q. is_letter q \<and> g = [a, b, d1, d2, q])))"

definition spec_accepts :: "string \<Rightarrow> bool" where
  "spec_accepts code \<longleftrightarrow>
     (\<exists>g line sfx. code = g @ ''_'' @ line @ sfx \<and> spec_group_form g \<and>
        length line = 4 \<and> list_all is_digit line \<and>
        sfx \<in> {''PEA'', ''PMA'', ''PE'', ''PM'', ''EA'', ''MA'', ''E'', ''M''})"

text \<open>
  The path of a family in the words of the specification. Two characters are equal
  without regard to case when they are equal or are the two cases of one letter; the
  label is split at the delimiter into trimmed tokens, the empty ones are dropped, a
  first token that is \<open>estimate\<close> or \<open>percent\<close> in any case is dropped, and an empty
  result is replaced by the one token that is the first non-empty of concept, group
  and base.
\<close>

definition same_letter :: "char \<Rightarrow> char \<Rightarrow> bool" where
  "same_letter c d \<longleftrightarrow>
     c = d \<or> (is_letter c \<and> is_letter d \<and>
              ((of_char c :: nat) + 32 = of_char d \<or> (of_char d :: nat) + 32 = of_char c))"

definition ci_equal :: "string \<Rightarrow> string \<Rightarrow> bool" where
  "ci_equal s t = list_all2 same_letter s t"

definition first_non_empty :: "string list \<Rightarrow> string \<Rightarrow> string" where
  "first_non_empty candidates last_resort =
     (case filter (\<lambda>s. s \<noteq> []) candidates of [] \<Rightarrow> last_resort | c # cs \<Rightarrow> c)"

definition spec_path :: "string \<Rightarrow> family \<Rightarrow> string list" where
  "spec_path b fam =
     (let tokens = filter (\<lambda>t. t \<noteq> [])
                     (map strip (split (CHR ''!'') ''!''
                        (case meta_label (meta fam) of None \<Rightarrow> [] | Some s \<Rightarrow> s)));
          topic = (case tokens of
                     [] \<Rightarrow> []
                   | t # ts \<Rightarrow> if ci_equal t ''estimate'' \<or> ci_equal t ''percent''
                               then ts else t # ts)
      in if topic = []
         then [first_non_empty
                 ((case meta_concept (meta fam) of None \<Rightarrow> [] | Some c \<Rightarrow> [c]) @
                  (case meta_group (meta fam) of None \<Rightarrow> [] | Some g \<Rightarrow> [g])) b]
         else topic)"

text \<open>
  What splitting and trimming mean. A separator occurs in a string when the string is
  some text, the separator, and some text. A string is another one trimmed when the
  other is whitespace, the string, and whitespace, and the string is empty or has no
  whitespace at either end.
\<close>

definition occurs :: "string \<Rightarrow> string \<Rightarrow> bool" where
  "occurs sep s \<longleftrightarrow> (\<exists>u v. s = u @ sep @ v)"

definition trimmed_of :: "string \<Rightarrow> string \<Rightarrow> bool" where
  "trimmed_of t p \<longleftrightarrow>
     (\<exists>l r. p = l @ t @ r \<and> list_all is_space l \<and> list_all is_space r \<and>
        (t = [] \<or> (\<not> is_space (hd t) \<and> \<not> is_space (last t))))"

text \<open>
  Two families for the path: a label with whitespace of several kinds around the
  tokens, three delimiters in a row and a blank piece; and a label of which nothing
  is left, with an empty concept.
\<close>

definition odd_label_family :: family where
  "odd_label_family =
     \<lparr>meta = \<lparr>base = ''DP02_0126'', meta_group = Some ''DP02'', meta_concept = Some ''Concept'',
              meta_label = Some ([CHR 0x09] @ ''ESTIMATE '' @ [CHR 0xA0] @
                                 ''!!ANCESTRY!!!Total population !! !!Arab'')\<rparr>,
      members = []\<rparr>"

definition no_label_family :: family where
  "no_label_family =
     \<lparr>meta = \<lparr>base = ''DP02_0126'', meta_group = Some ''DP02'', meta_concept = Some [],
              meta_label = Some ''Percent!! !!''\<rparr>,
      members = []\<rparr>"

text \<open>The lower-case letters \<open>a\<close> to \<open>z\<close>.\<close>

definition lower_ascii :: "char \<Rightarrow> bool" where
  "lower_ascii d = (let n = (of_char d :: nat) in 97 \<le> n \<and> n \<le> 122)"

text \<open>A small catalog: two variables of one family around an entry that is no variable.\<close>

definition arab_catalog :: variables where
  "arab_catalog =
     [(''DP02_0126E'',
       \<lparr>info_label = Some ''Estimate!!ANCESTRY!!Total population!!Arab'',
        info_concept = Some ''Selected Social Characteristics in the United States'',
        info_group = Some ''DP02'',
        info_predicateType = Some ''int'',
        info_attributes = Some ''DP02_0126EA,DP02_0126M,DP02_0126MA''\<rparr>),
      (''for'',
       \<lparr>info_label = Some ''Census API FIPS 'for' clause'',
        info_concept = Some ''Census API Geography Specification'',
        info_group = Some ''N/A'',
        info_predicateType = Some ''fips-for'',
        info_attributes = None\<rparr>),
      (''DP02_0126PE'',
       \<lparr>info_label = Some ''Percent!!ANCESTRY!!Total population!!Arab'',
        info_concept = Some ''Selected Social Characteristics in the United States'',
        info_group = Some ''DP02'',
        info_predicateType = Some ''float'',
        info_attributes = Some ''DP02_0126PEA,DP02_0126PM,DP02_0126PMA''\<rparr>)]"

text \<open>
  A catalog with three variables of one family: the estimate, the margin of error, and
  a second code for the estimate (the grammar lets a final line feed pass, so the two
  codes are different keys of the dictionary).
\<close>

definition overwrite_catalog :: variables where
  "overwrite_catalog =
     [(''DP02_0126E'',
       \<lparr>info_label = Some ''Estimate!!ANCESTRY!!Total population!!Arab'',
        info_concept = Some ''Selected Social Characteristics'',
        info_group = Some ''DP02'',
        info_predicateType = Some ''int'',
        info_attributes = Some ''DP02_0126EA''\<rparr>),
      (''DP02_0126M'',
       \<lparr>info_label = Some ''Margin of Error!!ANCESTRY!!Total population!!Arab'',
        info_concept = Some ''Second concept'',
        info_group = Some ''Second group'',
        info_predicateType = Some ''float'',
        info_attributes = Some ''DP02_0126MA''\<rparr>),
      (''DP02_0126E'' @ [CHR 0x0A],
       \<lparr>info_label = Some ''Third label'',
        info_concept = None,
        info_group = None,
        info_predicateType = Some ''string'',
        info_attributes = None\<rparr>)]"

text \<open>
  A catalog in which the label of the first family names the reserved key and the base
  of the second family as tokens.
\<close>

definition lost_catalog :: variables where
  "lost_catalog =
     [(''DP02_0001E'',
       \<lparr>info_label = Some ''Estimate!!Y!!_families_!!DP02_0002'',
        info_concept = Some ''C'', info_group = Some ''DP02'',
        info_predicateType = Some ''int'', info_attributes = None\<rparr>),
      (''DP02_0002E'',
       \<lparr>info_label = Some ''Estimate!!Y'',
        info_concept = Some ''C'', info_group = Some ''DP02'',
        info_predicateType = Some ''int'', info_attributes = None\<rparr>)]"

text \<open>A catalog of one variable, with the concept text as parameter.\<close>

definition concept_catalog :: "string option \<Rightarrow> variables" where
  "concept_catalog c =
     [(''DP02_0001E'',
       \<lparr>info_label = Some ''Estimate!!Y'',
        info_concept = c, info_group = Some ''DP02'',
        info_predicateType = Some ''int'', info_attributes = None\<rparr>)]"

text \<open>The same catalog entries for the Arab ancestry line, margin of error first.\<close>

definition moe_first_catalog :: variables where
  "moe_first_catalog =
     [(''DP02_0126M'',
       \<lparr>info_label = Some ''Margin of Error!!ANCESTRY!!Total population!!Arab'',
        info_concept = Some ''Selected Social Characteristics in the United States'',
        info_group = Some ''DP02'',
        info_predicateType = Some ''int'',
        info_attributes = Some ''DP02_0126MA''\<rparr>),
      (''DP02_0126E'',
       \<lparr>info_label = Some ''Estimate!!ANCESTRY!!Total population!!Arab'',
        info_concept = Some ''Selected Social Characteristics in the United States'',
        info_group = Some ''DP02'',
        info_predicateType = Some ''int'',
        info_attributes = Some ''DP02_0126EA,DP02_0126M,DP02_0126MA''\<rparr>)]"

text \<open>The percentage of the Arab ancestry line first, the estimate after it.\<close>

definition percent_first_catalog :: variables where
  "percent_first_catalog =
     [(''DP02_0126PE'',
       \<lparr>info_label = Some ''Percent!!ANCESTRY!!Total population!!Arab'',
        info_concept = Some ''Selected Social Characteristics in the United States'',
        info_group = Some ''DP02'',
        info_predicateType = Some ''float'',
        info_attributes = Some ''DP02_0126PEA,DP02_0126PM,DP02_0126PMA''\<rparr>),
      (''DP02_0126E'',
       \<lparr>info_label = Some ''Estimate!!ANCESTRY!!Total population!!Arab'',
        info_concept = Some ''Selected Social Characteristics in the United States'',
        info_group = Some ''DP02'',
        info_predicateType = Some ''int'',
        info_attributes = Some ''DP02_0126EA,DP02_0126M,DP02_0126MA''\<rparr>)]"

text \<open>
  Two key paths diverge when they differ at a position both have. A node is in order
  when the value under \<open>_families_\<close> is a dictionary and every other value is a node
  in order.
\<close>

fun diverge :: "string list \<Rightarrow> string list \<Rightarrow> bool" where
  "diverge (x # xs) (y # ys) = (x \<noteq> y \<or> diverge xs ys)"
| "diverge _ _ = False"

fun node_ok :: "pyval \<Rightarrow> bool" where
  "node_ok (PDict kvs) =
     (\<forall>kv \<in> set kvs. if fst kv = FAMILIES then (\<exists>bag. snd kv = PDict bag) else node_ok (snd kv))"
| "node_ok _ = False"

section \<open>The strings the grammar accepts\<close>

lemma strip_prefix_iff: "strip_prefix p s = Some r \<longleftrightarrow> s = p @ r"
  by (induction p s rule: strip_prefix.induct) auto

lemma take_digits_iff:
  "take_digits digit n s = Some (ds, r) \<longleftrightarrow> s = ds @ r \<and> length ds = n \<and> list_all digit ds"
proof (induction digit n s arbitrary: ds rule: take_digits.induct)
  case (1 digit s)
  then show ?case by auto
next
  case (2 digit n)
  then show ?case by auto
next
  case (3 digit n c cs)
  show ?case
  proof (cases ds)
    case Nil
    then show ?thesis by (auto split: option.splits)
  next
    case (Cons d ds')
    then show ?thesis using 3 [of ds'] by (auto split: option.splits)
  qed
qed

lemma find_SomeD: "find P xs = Some x \<Longrightarrow> x \<in> set xs \<and> P x"
  by (induction xs) (auto split: if_splits)

lemma match_suffix_Some:
  assumes "match_suffix lit r = Some x"
  shows "x \<in> set (map (map lit) suffix_alternatives) \<and> (r = x \<or> r = x @ [lit (CHR 0x0A)])"
proof -
  from find_SomeD [OF assms [unfolded match_suffix_def]]
  have mem: "x \<in> set (map (map lit) suffix_alternatives)"
    and "case strip_prefix x r of Some r' \<Rightarrow> at_end lit r' | None \<Rightarrow> False"
    by simp_all
  then obtain r' where "strip_prefix x r = Some r'" and "at_end lit r'"
    by (auto split: option.splits)
  then have "r = x \<or> r = x @ [lit (CHR 0x0A)]"
    by (auto simp: strip_prefix_iff at_end_def)
  with mem show ?thesis by simp
qed

lemma match_suffix_exact:
  assumes "inj lit" and "x \<in> set (map (map lit) suffix_alternatives)"
    and "e = [] \<or> e = [lit (CHR 0x0A)]"
  shows "match_suffix lit (x @ e) = Some x"
proof -
  note [simp] = inj_eq [OF assms(1)]
  from assms(2) have "x = map lit ''PEA'' \<or> x = map lit ''PMA'' \<or> x = map lit ''PE'' \<or>
      x = map lit ''PM'' \<or> x = map lit ''EA'' \<or> x = map lit ''MA'' \<or> x = map lit ''E'' \<or>
      x = map lit ''M''"
    by (simp add: suffix_alternatives_def)
  with assms(3) show ?thesis
    unfolding match_suffix_def suffix_alternatives_def at_end_def
    by (elim disjE; simp)
qed

lemma match_suffix_iff:
  assumes "inj lit"
  shows "match_suffix lit r = Some x \<longleftrightarrow>
     x \<in> set (map (map lit) suffix_alternatives) \<and> (r = x \<or> r = x @ [lit (CHR 0x0A)])"
  using match_suffix_Some [of lit r x] match_suffix_exact [OF assms, of x "[]"]
    match_suffix_exact [OF assms, of x "[lit (CHR 0x0A)]"]
  by auto

lemma match_line_suffix_iff:
  assumes "inj lit"
  shows "match_line_suffix lit digit r = Some (line, sfx) \<longleftrightarrow>
     length line = 4 \<and> list_all digit line \<and> sfx \<in> set (map (map lit) suffix_alternatives) \<and>
     (r = map lit ''_'' @ line @ sfx \<or> r = map lit ''_'' @ line @ sfx @ [lit (CHR 0x0A)])"
proof
  assume "match_line_suffix lit digit r = Some (line, sfx)"
  then obtain r1 r2 where "strip_prefix (map lit ''_'') r = Some r1"
      "take_digits digit 4 r1 = Some (line, r2)" "match_suffix lit r2 = Some sfx"
    unfolding match_line_suffix_def by (auto split: option.splits)
  then show "length line = 4 \<and> list_all digit line \<and>
     sfx \<in> set (map (map lit) suffix_alternatives) \<and>
     (r = map lit ''_'' @ line @ sfx \<or> r = map lit ''_'' @ line @ sfx @ [lit (CHR 0x0A)])"
    by (auto simp: strip_prefix_iff take_digits_iff match_suffix_iff [OF assms])
next
  assume a: "length line = 4 \<and> list_all digit line \<and>
     sfx \<in> set (map (map lit) suffix_alternatives) \<and>
     (r = map lit ''_'' @ line @ sfx \<or> r = map lit ''_'' @ line @ sfx @ [lit (CHR 0x0A)])"
  then obtain e where e: "e = [] \<or> e = [lit (CHR 0x0A)]"
      and r: "r = map lit ''_'' @ line @ (sfx @ e)"
    by auto
  have 1: "strip_prefix (map lit ''_'') r = Some (line @ (sfx @ e))"
    using r by (simp only: strip_prefix_iff)
  have 2: "take_digits digit 4 (line @ (sfx @ e)) = Some (line, sfx @ e)"
    using a by (simp add: take_digits_iff)
  have 3: "match_suffix lit (sfx @ e) = Some sfx"
    using a e by (intro match_suffix_exact [OF assms]) auto
  show "match_line_suffix lit digit r = Some (line, sfx)"
    by (simp only: match_line_suffix_def 1 2 3 option.case prod.case)
qed



lemma group_alternatives_sound:
  assumes "(g, r) \<in> set (group_alternatives lit digit code)"
  shows "code = g @ r \<and> group_shape lit digit g"
proof (cases "strip_prefix (map lit ''DP'') code")
  case None
  with assms show ?thesis by (simp add: group_alternatives_def)
next
  case (Some r0)
  then have code: "code = map lit ''DP'' @ r0" by (simp only: strip_prefix_iff)
  show ?thesis
  proof (cases "take_digits digit 2 r0")
    case None
    with Some assms show ?thesis by (simp add: group_alternatives_def)
  next
    case digits: (Some ddr)
    obtain dd r1 where ddr: "ddr = (dd, r1)" by (cases ddr)
    from digits ddr have r0: "r0 = dd @ r1" and d: "length dd = 2 \<and> list_all digit dd"
      by (simp_all only: take_digits_iff)
    have plain: "group_shape lit digit (map lit ''DP'' @ dd)"
      and p: "group_shape lit digit (map lit ''DP'' @ dd @ map lit ''P'')"
      and pr: "group_shape lit digit (map lit ''DP'' @ dd @ map lit ''PR'')"
      using d unfolding group_shape_def by (metis append_Nil2 list.simps(8), blast, blast)
    show ?thesis
    proof (cases "strip_prefix (map lit ''P'') r1")
      case None
      with Some digits ddr assms have "g = map lit ''DP'' @ dd" "r = r1"
        by (simp_all add: group_alternatives_def)
      with code r0 plain show ?thesis by simp
    next
      case has_p: (Some r2)
      then have r1: "r1 = map lit ''P'' @ r2" by (simp only: strip_prefix_iff)
      show ?thesis
      proof (cases "strip_prefix (map lit ''R'') r2")
        case None
        with Some digits ddr has_p assms
        have "(g = map lit ''DP'' @ dd @ map lit ''P'' \<and> r = r2) \<or>
              (g = map lit ''DP'' @ dd \<and> r = r1)"
          by (simp add: group_alternatives_def)
        with code r0 r1 plain p show ?thesis by auto
      next
        case has_r: (Some r3)
        then have r2: "r2 = map lit ''R'' @ r3" by (simp only: strip_prefix_iff)
        from Some digits ddr has_p has_r assms
        have "(g = map lit ''DP'' @ dd @ map lit ''PR'' \<and> r = r3) \<or>
              (g = map lit ''DP'' @ dd @ map lit ''P'' \<and> r = r2) \<or>
              (g = map lit ''DP'' @ dd \<and> r = r1)"
          by (simp add: group_alternatives_def)
        with code r0 r1 r2 plain p pr show ?thesis by auto
      qed
    qed
  qed
qed

lemma first_match_Some:
  "first_match lit digit alts = Some (g, line, sfx) \<Longrightarrow>
     \<exists>r. (g, r) \<in> set alts \<and> match_line_suffix lit digit r = Some (line, sfx)"
  by (induction lit digit alts rule: first_match.induct) (auto split: option.splits)

lemma group_alternatives_complete:
  assumes "inj lit" and "group_shape lit digit g"
    and "match_line_suffix lit digit r = Some (line, sfx)"
  shows "first_match lit digit (group_alternatives lit digit (g @ r)) = Some (g, line, sfx)"
proof -
  note [simp] = inj_eq [OF assms(1)]
  from assms(2) obtain dd q where d: "length dd = 2" "list_all digit dd"
      and q: "q = [] \<or> q = ''P'' \<or> q = ''PR''" and g: "g = map lit ''DP'' @ dd @ map lit q"
    unfolding group_shape_def by blast
  from assms(3) obtain r' where r: "r = lit (CHR ''_'') # r'"
    by (auto simp: match_line_suffix_iff [OF assms(1)])
  have 1: "strip_prefix (map lit ''DP'') (g @ r) = Some (dd @ map lit q @ r)"
    using g by (simp only: strip_prefix_iff) simp
  have 2: "take_digits digit 2 (dd @ map lit q @ r) = Some (dd, map lit q @ r)"
    using d by (simp add: take_digits_iff)
  from q show ?thesis
  proof (elim disjE)
    assume "q = []"
    then show ?thesis
      unfolding group_alternatives_def 1 using 2 assms(3) g r by simp
  next
    assume "q = ''P''"
    then show ?thesis
      unfolding group_alternatives_def 1 using 2 assms(3) g r by simp
  next
    assume "q = ''PR''"
    then show ?thesis
      unfolding group_alternatives_def 1 using 2 assms(3) g r by simp
  qed
qed

lemma re_match_iff:
  assumes "inj lit"
  shows "re_match lit digit code = Some (g, line, sfx) \<longleftrightarrow>
     group_shape lit digit g \<and> length line = 4 \<and> list_all digit line \<and>
     sfx \<in> set (map (map lit) suffix_alternatives) \<and>
     (code = g @ map lit ''_'' @ line @ sfx \<or>
      code = g @ map lit ''_'' @ line @ sfx @ [lit (CHR 0x0A)])"
proof
  assume "re_match lit digit code = Some (g, line, sfx)"
  then obtain r where "(g, r) \<in> set (group_alternatives lit digit code)"
      and "match_line_suffix lit digit r = Some (line, sfx)"
    unfolding re_match_def by (blast dest: first_match_Some)
  then show "group_shape lit digit g \<and> length line = 4 \<and> list_all digit line \<and>
     sfx \<in> set (map (map lit) suffix_alternatives) \<and>
     (code = g @ map lit ''_'' @ line @ sfx \<or>
      code = g @ map lit ''_'' @ line @ sfx @ [lit (CHR 0x0A)])"
    using group_alternatives_sound [of g r lit digit code]
    by (auto simp: match_line_suffix_iff [OF assms])
next
  assume a: "group_shape lit digit g \<and> length line = 4 \<and> list_all digit line \<and>
     sfx \<in> set (map (map lit) suffix_alternatives) \<and>
     (code = g @ map lit ''_'' @ line @ sfx \<or>
      code = g @ map lit ''_'' @ line @ sfx @ [lit (CHR 0x0A)])"
  then obtain r where r: "code = g @ r"
      and "r = map lit ''_'' @ line @ sfx \<or> r = map lit ''_'' @ line @ sfx @ [lit (CHR 0x0A)]"
    by auto
  with a have "match_line_suffix lit digit r = Some (line, sfx)"
    by (simp only: match_line_suffix_iff [OF assms])
  with a show "re_match lit digit code = Some (g, line, sfx)"
    unfolding re_match_def r by (intro group_alternatives_complete [OF assms]) simp_all
qed


lemma VAR_RE_match_shape:
  assumes "VAR_RE_match code = Some (g, line, sfx)"
  shows "(\<exists>rest. code = g @ ''_'' @ line @ rest) \<and> length line = 4"
proof -
  have "inj (\<lambda>c :: char. c)" by (simp add: inj_def)
  from re_match_iff [OF this, of is_digit code g line sfx] assms
  show ?thesis unfolding VAR_RE_match_def by auto
qed

lemma suffix_alternatives_set:
  "set (map (map lit) suffix_alternatives) =
     map lit ` {''PEA'', ''PMA'', ''PE'', ''PM'', ''EA'', ''MA'', ''E'', ''M''}"
  unfolding suffix_alternatives_def set_map by (rule arg_cong [where f = "(`) (map lit)"]) simp

lemma group_form_shape:
  assumes "\<forall>c \<in> set ''0123456789''. digit (lit c)" and "group_form lit g"
  shows "group_shape lit digit g"
proof -
  from assms(2) obtain d1 d2 q where d: "d1 \<in> set ''0123456789''" "d2 \<in> set ''0123456789''"
      and q: "q = [] \<or> q = ''P'' \<or> q = ''PR''" and g: "g = map lit (''DP'' @ [d1, d2] @ q)"
    unfolding group_form_def by blast
  from d assms(1) have "digit (lit d1)" "digit (lit d2)" by blast+
  then have "length [lit d1, lit d2] = 2 \<and> list_all digit [lit d1, lit d2]" by simp
  moreover from g have "g = map lit ''DP'' @ [lit d1, lit d2] @ map lit q" by simp
  ultimately show ?thesis unfolding group_shape_def using q by blast
qed

lemma group_shape_form:
  assumes "group_shape lit digit g" and "\<forall>c \<in> set g. digit c \<longrightarrow> c \<in> lit ` D"
  shows "\<exists>d1 d2 q. d1 \<in> D \<and> d2 \<in> D \<and> (q = [] \<or> q = ''P'' \<or> q = ''PR'') \<and>
     g = map lit (''DP'' @ [d1, d2] @ q)"
proof -
  from assms(1) obtain dd q where dd: "length dd = 2" "list_all digit dd"
      and q: "q = [] \<or> q = ''P'' \<or> q = ''PR''" and g: "g = map lit ''DP'' @ dd @ map lit q"
    unfolding group_shape_def by blast
  from dd(1) obtain a b where ab: "dd = [a, b]"
    by (cases dd; cases "tl dd"; cases "tl (tl dd)") auto
  from ab g have "a \<in> set g" "b \<in> set g" by simp_all
  moreover from ab dd(2) have "digit a" "digit b" by simp_all
  ultimately have "a \<in> lit ` D" "b \<in> lit ` D" using assms(2) by blast+
  then obtain d1 d2 where "a = lit d1" "b = lit d2" "d1 \<in> D" "d2 \<in> D" by blast
  with ab g have "g = map lit (''DP'' @ [d1, d2] @ q)" by simp
  with \<open>d1 \<in> D\<close> \<open>d2 \<in> D\<close> q show ?thesis by blast
qed


text \<open>The line feed that \<open>$\<close> lets pass.\<close>

lemma VAR_RE_match_trailing_line_feed:
  "VAR_RE_match (''DP02_0126E'' @ [CHR 0x0A]) = Some (''DP02'', ''0126'', ''E'')"
  by code_simp

text \<open>
  A decimal digit that is not \<open>0\<close> to \<open>9\<close>: over the code points, with a class of digits
  that holds the Arabic-Indic digits U+0660 to U+0669 as well, as the class \<open>\d\<close> of
  Python does, the code \<open>DP0\<close>, U+0662, \<open>_0126E\<close> is accepted.
\<close>

lemma re_match_arabic_indic_digit:
  "re_match (of_char :: char \<Rightarrow> nat)
     (\<lambda>n. (48 \<le> n \<and> n \<le> 57) \<or> (1632 \<le> n \<and> n \<le> 1641))
     (map of_char ''DP0'' @ [1634] @ map of_char ''_0126E'') =
   Some (map of_char ''DP0'' @ [1634], map of_char ''0126'', map of_char ''E'')"
  by code_simp


text \<open>
  C3: for strings over any type of characters, with any class of decimal digits that
  holds the digits \<open>0\<close> to \<open>9\<close>: a code that has no decimal digit other than \<open>0\<close> to \<open>9\<close>
  and does not end in a line feed is accepted, with groups \<open>g\<close>, \<open>line\<close> and \<open>sfx\<close>,
  exactly when it is \<open>g\<close>, an underscore, \<open>line\<close> and \<open>sfx\<close> and nothing else, where \<open>g\<close>
  is \<open>DP\<close>, two digits and then nothing, \<open>P\<close> or \<open>PR\<close>, \<open>line\<close> is four digits and
  \<open>sfx\<close> is one of the eight suffixes. The comparison of characters is exact, so the
  match is case-sensitive.
\<close>

theorem VAR_RE_accepts:
  assumes "inj lit"
    and "\<forall>c \<in> set ''0123456789''. digit (lit c)"
    and "\<forall>c \<in> set code. digit c \<longrightarrow> c \<in> lit ` set ''0123456789''"
    and "code = [] \<or> last code \<noteq> lit (CHR 0x0A)"
  shows "re_match lit digit code = Some (g, line, sfx) \<longleftrightarrow>
           code = g @ map lit ''_'' @ line @ sfx \<and> group_form lit g \<and>
           length line = 4 \<and> set line \<subseteq> lit ` set ''0123456789'' \<and>
           sfx \<in> map lit ` {''PEA'', ''PMA'', ''PE'', ''PM'', ''EA'', ''MA'', ''E'', ''M''}"
proof
  assume m: "re_match lit digit code = Some (g, line, sfx)"
  then have shape: "group_shape lit digit g" and len: "length line = 4"
      and dl: "list_all digit line"
      and sfx: "sfx \<in> set (map (map lit) suffix_alternatives)"
      and code: "code = g @ map lit ''_'' @ line @ sfx \<or>
        code = g @ map lit ''_'' @ line @ sfx @ [lit (CHR 0x0A)]"
    unfolding re_match_iff [OF assms(1)] by blast+
  have "code \<noteq> g @ map lit ''_'' @ line @ sfx @ [lit (CHR 0x0A)]"
  proof
    assume "code = g @ map lit ''_'' @ line @ sfx @ [lit (CHR 0x0A)]"
    then have "code = (g @ map lit ''_'' @ line @ sfx) @ [lit (CHR 0x0A)]" by simp
    then have "code \<noteq> [] \<and> last code = lit (CHR 0x0A)" by (simp only: last_snoc) simp
    with assms(4) show False by simp
  qed
  with code have eq: "code = g @ map lit ''_'' @ line @ sfx" by simp
  from eq have "set g \<subseteq> set code" and "set line \<subseteq> set code" by auto
  with assms(3) have gdig: "\<forall>c \<in> set g. digit c \<longrightarrow> c \<in> lit ` set ''0123456789''"
      and ldig: "\<forall>c \<in> set line. digit c \<longrightarrow> c \<in> lit ` set ''0123456789''"
    by blast+
  from group_shape_form [OF shape gdig] have gf: "group_form lit g"
    unfolding group_form_def .
  from dl ldig have line: "set line \<subseteq> lit ` set ''0123456789''"
    unfolding list_all_iff by blast
  from sfx have s2: "sfx \<in> map lit ` {''PEA'', ''PMA'', ''PE'', ''PM'', ''EA'', ''MA'', ''E'', ''M''}"
    by (simp only: suffix_alternatives_set)
  show "code = g @ map lit ''_'' @ line @ sfx \<and> group_form lit g \<and>
           length line = 4 \<and> set line \<subseteq> lit ` set ''0123456789'' \<and>
           sfx \<in> map lit ` {''PEA'', ''PMA'', ''PE'', ''PM'', ''EA'', ''MA'', ''E'', ''M''}"
    by (intro conjI) (rule eq gf len line s2)+
next
  assume a: "code = g @ map lit ''_'' @ line @ sfx \<and> group_form lit g \<and>
           length line = 4 \<and> set line \<subseteq> lit ` set ''0123456789'' \<and>
           sfx \<in> map lit ` {''PEA'', ''PMA'', ''PE'', ''PM'', ''EA'', ''MA'', ''E'', ''M''}"
  then have eq: "code = g @ map lit ''_'' @ line @ sfx" and gf: "group_form lit g"
      and len: "length line = 4" and line: "set line \<subseteq> lit ` set ''0123456789''"
      and sfx: "sfx \<in> map lit ` {''PEA'', ''PMA'', ''PE'', ''PM'', ''EA'', ''MA'', ''E'', ''M''}"
    by blast+
  from group_form_shape [OF assms(2) gf] have shape: "group_shape lit digit g" .
  from line assms(2) have dl: "list_all digit line" unfolding list_all_iff by blast
  from sfx have s2: "sfx \<in> set (map (map lit) suffix_alternatives)"
    by (simp only: suffix_alternatives_set)
  show "re_match lit digit code = Some (g, line, sfx)"
    unfolding re_match_iff [OF assms(1)]
    by (intro conjI disjI1) (rule eq shape len dl s2)+
qed

theorem VAR_RE_accepts_witness:
  "list_all is_digit ''0123456789'' \<and>
   filter is_digit ''DP72PR_0126PEA'' = ''720126'' \<and>
   last ''DP72PR_0126PEA'' \<noteq> CHR 0x0A \<and>
   VAR_RE_match ''DP72PR_0126PEA'' = Some (''DP72PR'', ''0126'', ''PEA'') \<and>
   VAR_RE_match ''dp72pr_0126pea'' = None \<and>
   group_form (\<lambda>c. c) ''DP72PR''"
proof -
  have i: "inj (\<lambda>c :: char. c)" by (simp add: inj_def)
  have d: "list_all is_digit ''0123456789''" by code_simp
  then have d': "\<forall>c \<in> set ''0123456789''. is_digit ((\<lambda>c. c) c)"
    unfolding list_all_iff by simp
  have f: "filter is_digit ''DP72PR_0126PEA'' = ''720126''" by code_simp
  have o: "\<forall>c \<in> set ''DP72PR_0126PEA''. is_digit c \<longrightarrow> c \<in> (\<lambda>c. c) ` set ''0123456789''"
  proof (intro ballI impI)
    fix c assume "c \<in> set ''DP72PR_0126PEA''" and "is_digit c"
    then have "c \<in> set (filter is_digit ''DP72PR_0126PEA'')" by (simp only: set_filter) simp
    then have "c \<in> set ''720126''" by (simp only: f)
    then show "c \<in> (\<lambda>c. c) ` set ''0123456789''" by auto
  qed
  have a: "''DP72PR_0126PEA'' = [] \<or> last ''DP72PR_0126PEA'' \<noteq> (\<lambda>c. c) (CHR 0x0A)" by simp
  have b: "VAR_RE_match ''DP72PR_0126PEA'' = Some (''DP72PR'', ''0126'', ''PEA'')" by code_simp
  have n: "VAR_RE_match ''dp72pr_0126pea'' = None" by code_simp
  from VAR_RE_accepts [OF i d' o a, of "''DP72PR''" "''0126''" "''PEA''"] b
  have "group_form (\<lambda>c. c) ''DP72PR''" unfolding VAR_RE_match_def by blast
  with d f a b n show ?thesis by simp
qed

text \<open>
  C3 as it is worded fails: the grammar accepts a group token with the two-letter
  qualifier \<open>PR\<close>, which is neither of the two forms of the specification.
\<close>

theorem VAR_RE_accepts_two_letter_qualifier:
  "VAR_RE_match ''DP02PR_0001E'' = Some (''DP02PR'', ''0001'', ''E'') \<and>
   \<not> spec_accepts ''DP02PR_0001E''"
proof -
  have a: "VAR_RE_match ''DP02PR_0001E'' = Some (''DP02PR'', ''0001'', ''E'')" by code_simp
  have b: "\<not> spec_accepts ''DP02PR_0001E''"
  proof
    assume "spec_accepts ''DP02PR_0001E''"
    then obtain g line sfx where eq: "''DP02PR_0001E'' = g @ ''_'' @ line @ sfx"
        and g: "spec_group_form g"
      unfolding spec_accepts_def by blast
    from g have "length g = 4 \<or> length g = 5"
      unfolding spec_group_form_def by auto
    then have "(g @ ''_'' @ line @ sfx) ! 4 = CHR ''_'' \<or> (g @ ''_'' @ line @ sfx) ! 5 = CHR ''_''"
      by (auto simp: nth_append)
    with eq [symmetric] show False by simp
  qed
  from a b show ?thesis by simp
qed

section \<open>The families built from a catalog\<close>

lemma add_variable_skip:
  "var_base v = None \<Longrightarrow> add_variable fams (v, i) = fams"
  by (auto simp: add_variable_def var_base_def split: option.splits)

lemma add_variable_lookup:
  assumes "var_base v = Some b"
  shows "map_of (add_variable fams (v, i)) b' =
     (if b' = b
      then Some ((case map_of fams b of None \<Rightarrow> \<lparr>meta = new_meta b i, members = []\<rparr> | Some f \<Rightarrow> f)
                  \<lparr>members := AList.update (the (var_measure v)) (new_member v i)
                     (members (case map_of fams b of None \<Rightarrow> \<lparr>meta = new_meta b i, members = []\<rparr> | Some f \<Rightarrow> f))\<rparr>)
      else map_of fams b')"
  using assms
  by (auto simp: add_variable_def var_base_def var_measure_def Let_def update_conv' split: option.splits)

lemma build_families_snoc:
  "build_families (vars @ [vi]) = add_variable (build_families vars) vi"
  by (simp add: build_families_def)

lemma add_variable_keys:
  "fst ` set (add_variable fams (v, i)) = fst ` set fams \<union> (case var_base v of None \<Rightarrow> {} | Some b \<Rightarrow> {b})"
  by (auto simp: add_variable_def var_base_def Let_def  split: option.splits simp flip: dom_map_of_conv_image_fst simp: update_conv')

lemma build_families_keys:
  "fst ` set (build_families vars) = {b. \<exists>vi \<in> set vars. var_base (fst vi) = Some b}"
proof (induction vars rule: rev_induct)
  case Nil
  then show ?case by (simp add: build_families_def)
next
  case (snoc vi vars)
  show ?case
    unfolding build_families_snoc
    using snoc add_variable_keys [of "build_families vars" "fst vi" "snd vi"]
    by (auto split: option.splits)
qed

lemma add_variable_distinct:
  "distinct (map fst fams) \<Longrightarrow> distinct (map fst (add_variable fams vi))"
  by (auto simp: add_variable_def Let_def distinct_update split: option.splits)

lemma build_families_distinct: "distinct (map fst (build_families vars))"
  by (induction vars rule: rev_induct) (simp_all add: build_families_def add_variable_distinct)


lemma find_snoc:
  "find P (xs @ [x]) = (case find P xs of None \<Rightarrow> (if P x then Some x else None) | Some y \<Rightarrow> Some y)"
  by (induction xs) auto

lemma var_measure_Some: "var_base v = Some b \<Longrightarrow> \<exists>m. var_measure v = Some m"
  by (auto simp: var_base_def var_measure_def split: option.splits)


text \<open>
  What the first loop has stored under a base after any catalog: nothing when no code
  of the catalog has that base; otherwise the meta of the first such variable, and for
  every measure name the member of the last variable of that base and measure.
\<close>

lemma build_families_inv:
  "case map_of (build_families vars) b of
     None \<Rightarrow> find (\<lambda>vi. var_base (fst vi) = Some b) vars = None
   | Some fam \<Rightarrow>
       (\<exists>vi. find (\<lambda>vi. var_base (fst vi) = Some b) vars = Some vi \<and> meta fam = new_meta b (snd vi)) \<and>
       (\<forall>m. map_of (members fam) m =
          (case find (\<lambda>vi. var_base (fst vi) = Some b \<and> var_measure (fst vi) = Some m) (rev vars) of
             None \<Rightarrow> None | Some vi \<Rightarrow> Some (new_member (fst vi) (snd vi)))) \<and>
       distinct (map fst (members fam))"
proof (induction vars rule: rev_induct)
  case Nil
  then show ?case by (simp add: build_families_def)
next
  case (snoc vi vars)
  obtain v i where vi: "vi = (v, i)" by (cases vi)
  show ?case
  proof (cases "var_base v = Some b")
    case True
    then obtain m where m: "var_measure v = Some m" using var_measure_Some by blast
    show ?thesis
    proof (cases "map_of (build_families vars) b")
      case None
      with snoc have nf: "find (\<lambda>vi. var_base (fst vi) = Some b) vars = None" by simp
      then have nf2: "find (\<lambda>vi. var_base (fst vi) = Some b \<and> var_measure (fst vi) = Some m') (rev vars) = None" for m'
        by (auto simp: find_None_iff)
      show ?thesis
        unfolding build_families_snoc vi
        using True m None nf nf2
        by (simp add: add_variable_lookup find_snoc)
    next
      case (Some fam)
      with snoc show ?thesis
        unfolding build_families_snoc vi
        using True m
        by (auto simp: add_variable_lookup find_snoc update_conv' distinct_update)
    qed
  next
    case False
    have same: "map_of (build_families (vars @ [vi])) b = map_of (build_families vars) b"
    proof (cases "var_base v")
      case None
      then show ?thesis unfolding build_families_snoc vi by (simp add: add_variable_skip)
    next
      case (Some b')
      with False show ?thesis unfolding build_families_snoc vi by (simp add: add_variable_lookup)
    qed
    show ?thesis
      unfolding same using snoc False vi
      by (auto simp: find_snoc split: option.splits)
  qed
qed

lemma init_families: "init vars = Inr self \<Longrightarrow> families self = build_families vars"
  by (auto simp: init_def Let_def split: sum.splits)

lemma build_families_base:
  assumes "map_of (build_families vars) b = Some fam"
  shows "base (meta fam) = b"
  using build_families_inv [where vars = vars and b = b] assms by (auto simp: new_meta_def)

section \<open>Lookup of a family by code\<close>

text \<open>
  C5: for every code the grammar accepts, with groups \<open>g\<close>, \<open>line\<close> and \<open>sfx\<close>, the code
  starts with \<open>g\<close>, an underscore and the four characters of \<open>line\<close>, and the family
  that \<open>family\<close> returns has exactly that string, \<open>g\<close>, underscore, \<open>line\<close>, as
  \<open>meta.base\<close>; and there is such a family for every accepted code of the catalog.
\<close>

theorem family_by_code_base:
  assumes "init vars = Inr self" and "VAR_RE_match code = Some (g, line, sfx)"
  shows "(\<exists>rest. code = g @ ''_'' @ line @ rest) \<and> length line = 4 \<and>
         (case family_by_code self code of
            None \<Rightarrow> code \<notin> fst ` set vars
          | Some fam \<Rightarrow> base (meta fam) = g @ ''_'' @ line)"
proof -
  from assms(2) have shape: "(\<exists>rest. code = g @ ''_'' @ line @ rest) \<and> length line = 4"
    by (rule VAR_RE_match_shape)
  have "case family_by_code self code of
            None \<Rightarrow> code \<notin> fst ` set vars
          | Some fam \<Rightarrow> base (meta fam) = g @ ''_'' @ line"
  proof (cases "family_by_code self code")
    case None
    with assms have "map_of (build_families vars) (base_of g line) = None"
      by (simp add: family_by_code_def init_families)
    then have "base_of g line \<notin> fst ` set (build_families vars)"
      by (simp add: map_of_eq_None_iff)
    moreover have "var_base code = Some (base_of g line)"
      using assms(2) by (simp add: var_base_def)
    ultimately have "code \<notin> fst ` set vars"
      unfolding build_families_keys by force
    with None show ?thesis by simp
  next
    case (Some fam)
    with assms have "map_of (build_families vars) (base_of g line) = Some fam"
      by (simp add: family_by_code_def init_families)
    from build_families_base [OF this] Some show ?thesis by (simp add: base_of_def)
  qed
  with shape show ?thesis by simp
qed

theorem family_by_code_base_witness:
  "init arab_catalog = Inr (projr (init arab_catalog)) \<and>
   VAR_RE_match ''DP02_0126PE'' = Some (''DP02'', ''0126'', ''PE'') \<and>
   map_option (base \<circ> meta) (family_by_code (projr (init arab_catalog)) ''DP02_0126PE'')
     = Some ''DP02_0126'' \<and>
   map_option (base \<circ> meta) (family_by_code (projr (init arab_catalog)) ''DP02_0126E'')
     = Some ''DP02_0126''"
proof -
  have a: "init arab_catalog = Inr (projr (init arab_catalog))" by code_simp
  have b: "VAR_RE_match ''DP02_0126PE'' = Some (''DP02'', ''0126'', ''PE'')" by code_simp
  have c: "family_by_code (projr (init arab_catalog)) ''DP02_0126PE'' =
      Some (the (family_by_code (projr (init arab_catalog)) ''DP02_0126PE''))" by code_simp
  from family_by_code_base [OF a b]
  have "case family_by_code (projr (init arab_catalog)) ''DP02_0126PE'' of
            None \<Rightarrow> ''DP02_0126PE'' \<notin> fst ` set arab_catalog
          | Some fam \<Rightarrow> base (meta fam) = ''DP02'' @ ''_'' @ ''0126''"
    by blast
  with c have d: "map_option (base \<circ> meta)
      (family_by_code (projr (init arab_catalog)) ''DP02_0126PE'') = Some ''DP02_0126''"
    by (cases "family_by_code (projr (init arab_catalog)) ''DP02_0126PE''") simp_all
  have e: "map_option (base \<circ> meta)
      (family_by_code (projr (init arab_catalog)) ''DP02_0126E'') = Some ''DP02_0126''"
    by code_simp
  from a b d e show ?thesis by simp
qed

text \<open>
  C10: for a code the grammar accepts whose base is the base of no variable of the
  catalog, \<open>family\<close> returns \<open>None\<close>: the mapping has no entry for that base.
\<close>

theorem family_by_code_absent:
  assumes "init vars = Inr self" and "VAR_RE_match code = Some (g, line, sfx)"
    and "\<forall>v \<in> fst ` set vars. var_base v \<noteq> Some (base_of g line)"
  shows "family_by_code self code = None \<and> base_of g line \<notin> fst ` set (families self)"
proof -
  have "base_of g line \<notin> fst ` set (build_families vars)"
    unfolding build_families_keys using assms(3) by auto
  then show ?thesis
    using assms(1,2) by (simp add: family_by_code_def init_families map_of_eq_None_iff)
qed

theorem family_by_code_absent_witness:
  "init arab_catalog = Inr (projr (init arab_catalog)) \<and>
   VAR_RE_match ''DP03_0062E'' = Some (''DP03'', ''0062'', ''E'') \<and>
   list_all (\<lambda>v. var_base v \<noteq> Some (base_of ''DP03'' ''0062'')) (map fst arab_catalog) \<and>
   family_by_code (projr (init arab_catalog)) ''DP03_0062E'' = None"
proof -
  have a: "init arab_catalog = Inr (projr (init arab_catalog))" by code_simp
  have b: "VAR_RE_match ''DP03_0062E'' = Some (''DP03'', ''0062'', ''E'')" by code_simp
  have c: "list_all (\<lambda>v. var_base v \<noteq> Some (base_of ''DP03'' ''0062'')) (map fst arab_catalog)"
    by code_simp
  then have c': "\<forall>v \<in> fst ` set arab_catalog. var_base v \<noteq> Some (base_of ''DP03'' ''0062'')"
    by (simp add: list_all_iff)
  from a b c family_by_code_absent [OF a b c'] show ?thesis by blast
qed

section \<open>Meta and members of a family\<close>

lemma find_append_found:
  "find P xs = Some x \<Longrightarrow> find P (xs @ ys) = Some x"
  by (induction xs) (auto split: if_splits)

text \<open>
  C7: the catalog is processed in its order. The meta of a family holds the base and
  the group, concept and label of the first variable of the catalog whose code has the
  family's base; it is the same after any further variables. A further variable of the
  same base leaves the meta as it is and puts the member made of its own code, label,
  predicate type and attributes under its own measure name, where it replaces the
  member that was there, and leaves the members under all other measure names as they
  are; a variable of another base or a rejected code leaves the family as it is. So
  every measure name holds the member of the last variable with that base and measure,
  and no measure name occurs twice.
\<close>

theorem family_meta_first_member_last:
  assumes "map_of (build_families vars) b = Some fam"
  shows "(\<exists>v i. find (\<lambda>vi. var_base (fst vi) = Some b) vars = Some (v, i) \<and>
              meta fam = \<lparr>base = b, meta_group = info_group i,
                           meta_concept = info_concept i, meta_label = info_label i\<rparr>) \<and>
         (\<forall>more. \<exists>fam'. map_of (build_families (vars @ more)) b = Some fam' \<and>
              meta fam' = meta fam) \<and>
         (\<forall>v i m. var_base v = Some b \<and> var_measure v = Some m \<longrightarrow>
              (\<exists>fam'. map_of (build_families (vars @ [(v, i)])) b = Some fam' \<and>
                 meta fam' = meta fam \<and>
                 map_of (members fam') =
                   (map_of (members fam))
                     (m \<mapsto> \<lparr>var = v, member_label = info_label i,
                              member_predicateType = info_predicateType i,
                              member_attributes = info_attributes i\<rparr>))) \<and>
         (\<forall>v i. var_base v \<noteq> Some b \<longrightarrow>
              map_of (build_families (vars @ [(v, i)])) b = Some fam) \<and>
         (\<forall>m. map_of (members fam) m =
              (case find (\<lambda>vi. var_base (fst vi) = Some b \<and> var_measure (fst vi) = Some m)
                      (rev vars) of
                 None \<Rightarrow> None
               | Some (v, i) \<Rightarrow>
                   Some \<lparr>var = v, member_label = info_label i,
                         member_predicateType = info_predicateType i,
                         member_attributes = info_attributes i\<rparr>)) \<and>
         distinct (map fst (members fam))"
proof -
  from build_families_inv [where vars = vars and b = b] assms
  obtain vi where first: "find (\<lambda>vi. var_base (fst vi) = Some b) vars = Some vi"
      and meta: "meta fam = new_meta b (snd vi)"
      and last: "\<forall>m. map_of (members fam) m =
              (case find (\<lambda>vi. var_base (fst vi) = Some b \<and> var_measure (fst vi) = Some m)
                      (rev vars) of
                 None \<Rightarrow> None
               | Some vi \<Rightarrow> Some (new_member (fst vi) (snd vi)))"
      and dist: "distinct (map fst (members fam))"
    by auto
  have c1: "\<exists>v i. find (\<lambda>vi. var_base (fst vi) = Some b) vars = Some (v, i) \<and>
              meta fam = \<lparr>base = b, meta_group = info_group i,
                           meta_concept = info_concept i, meta_label = info_label i\<rparr>"
    using first meta by (cases vi) (simp add: new_meta_def)
  have c2: "\<exists>fam'. map_of (build_families (vars @ more)) b = Some fam' \<and> meta fam' = meta fam"
    for more
  proof -
    have f: "find (\<lambda>vi. var_base (fst vi) = Some b) (vars @ more) = Some vi"
      using first by (rule find_append_found)
    from build_families_inv [where vars = "vars @ more" and b = b] f meta
    show ?thesis by (auto split: option.splits)
  qed
  have c3: "\<exists>fam'. map_of (build_families (vars @ [(v, i)])) b = Some fam' \<and>
                 meta fam' = meta fam \<and>
                 map_of (members fam') =
                   (map_of (members fam))
                     (m \<mapsto> \<lparr>var = v, member_label = info_label i,
                              member_predicateType = info_predicateType i,
                              member_attributes = info_attributes i\<rparr>)"
    if "var_base v = Some b" and "var_measure v = Some m" for v i m
    unfolding build_families_snoc using that assms
    by (simp add: add_variable_lookup update_conv' new_member_def)
  have c4: "map_of (build_families (vars @ [(v, i)])) b = Some fam"
    if "var_base v \<noteq> Some b" for v i
  proof (cases "var_base v")
    case None
    then show ?thesis unfolding build_families_snoc using assms by (simp add: add_variable_skip)
  next
    case (Some b')
    with that show ?thesis unfolding build_families_snoc using assms
      by (simp add: add_variable_lookup)
  qed
  have c5: "map_of (members fam) m =
              (case find (\<lambda>vi. var_base (fst vi) = Some b \<and> var_measure (fst vi) = Some m)
                      (rev vars) of
                 None \<Rightarrow> None
               | Some (v, i) \<Rightarrow>
                   Some \<lparr>var = v, member_label = info_label i,
                         member_predicateType = info_predicateType i,
                         member_attributes = info_attributes i\<rparr>)" for m
    using last by (auto simp: new_member_def split: option.splits)
  from c1 c2 c3 c4 c5 dist show ?thesis by blast
qed

theorem family_meta_first_member_last_witness:
  "map_of (build_families overwrite_catalog) ''DP02_0126'' =
     Some \<lparr>meta = \<lparr>base = ''DP02_0126'', meta_group = Some ''DP02'',
                    meta_concept = Some ''Selected Social Characteristics'',
                    meta_label = Some ''Estimate!!ANCESTRY!!Total population!!Arab''\<rparr>,
           members =
             [(''estimate'',
               \<lparr>var = ''DP02_0126E'' @ [CHR 0x0A], member_label = Some ''Third label'',
                member_predicateType = Some ''string'', member_attributes = None\<rparr>),
              (''moe'',
               \<lparr>var = ''DP02_0126M'',
                member_label = Some ''Margin of Error!!ANCESTRY!!Total population!!Arab'',
                member_predicateType = Some ''float'',
                member_attributes = Some ''DP02_0126MA''\<rparr>)]\<rparr> \<and>
   map fst (build_families overwrite_catalog) = [''DP02_0126''] \<and>
   distinct (map fst (members (the (map_of (build_families overwrite_catalog) ''DP02_0126''))))"
proof -
  let ?fam = "\<lparr>meta = \<lparr>base = ''DP02_0126'', meta_group = Some ''DP02'',
                    meta_concept = Some ''Selected Social Characteristics'',
                    meta_label = Some ''Estimate!!ANCESTRY!!Total population!!Arab''\<rparr>,
           members =
             [(''estimate'',
               \<lparr>var = ''DP02_0126E'' @ [CHR 0x0A], member_label = Some ''Third label'',
                member_predicateType = Some ''string'', member_attributes = None\<rparr>),
              (''moe'',
               \<lparr>var = ''DP02_0126M'',
                member_label = Some ''Margin of Error!!ANCESTRY!!Total population!!Arab'',
                member_predicateType = Some ''float'',
                member_attributes = Some ''DP02_0126MA''\<rparr>)]\<rparr>"
  have a: "map_of (build_families overwrite_catalog) ''DP02_0126'' = Some ?fam" by code_simp
  have b: "map fst (build_families overwrite_catalog) = [''DP02_0126'']" by code_simp
  from family_meta_first_member_last [OF a] have "distinct (map fst (members ?fam))" by blast
  with a b show ?thesis by simp
qed

section \<open>Walking the tree\<close>

lemma walk_append:
  "walk t p = Inr v \<Longrightarrow> v \<noteq> PNone \<Longrightarrow> walk t (p @ q) = walk v q"
  by (induction t p rule: walk.induct) (auto split: pyval.splits)

text \<open>
  C9: when \<open>families_at\<close> finds a bag with entries at a path, \<open>subtree\<close> with that
  path extended by the token \<open>_families_\<close> returns that bag, and with further tokens
  it walks on into the family stored under a base and below it.
\<close>

theorem subtree_reaches_bag:
  assumes "families_at self (Tokens p) = Inr (PDict bag)" and "bag \<noteq> []"
  shows "subtree self (Tokens (p @ [FAMILIES])) = Inr (PDict bag) \<and>
         (\<forall>b fam q. map_of bag b = Some fam \<and> fam \<noteq> PNone \<longrightarrow>
            subtree self (Tokens (p @ FAMILIES # b # q)) = walk fam q)"
proof -
  from assms obtain kvs where node: "walk (tree self) p = Inr (PDict kvs)"
      and bag: "map_of kvs FAMILIES = Some (PDict bag)"
    by (auto simp: families_at_def subtree_def path_tokens_def
        split: sum.splits if_splits pyval.splits option.splits)
  have a: "walk (tree self) (p @ q) = walk (PDict kvs) q" for q
    using walk_append [OF node] by simp
  have "walk (PDict kvs) (FAMILIES # q) = walk (PDict bag) q" for q
    using bag by (cases q) (simp_all add: dict_get_def)
  then have b: "walk (tree self) (p @ FAMILIES # q) = walk (PDict bag) q" for q
    using a by simp
  have c: "walk (PDict bag) (b # q) = walk fam q"
    if "map_of bag b = Some fam" and "fam \<noteq> PNone" for b fam q
    using that by (cases fam) (simp_all add: dict_get_def)
  show ?thesis
    using b [of "[]"] b c by (simp add: subtree_def path_tokens_def)
qed

theorem subtree_reaches_bag_witness:
  "families_at (projr (init arab_catalog)) (Tokens [''ANCESTRY'', ''Total population'', ''Arab''])
     = Inr (PDict [(''DP02_0126'', family_val (the (family_by_code (projr (init arab_catalog)) ''DP02_0126E'')))]) \<and>
   subtree (projr (init arab_catalog)) (Tokens [''ANCESTRY'', ''Total population'', ''Arab'', ''_families_''])
     = Inr (PDict [(''DP02_0126'', family_val (the (family_by_code (projr (init arab_catalog)) ''DP02_0126E'')))]) \<and>
   subtree (projr (init arab_catalog))
      (Tokens [''ANCESTRY'', ''Total population'', ''Arab'', ''_families_'', ''DP02_0126'', ''meta'', ''base''])
     = Inr (PStr ''DP02_0126'')"
proof -
  let ?c = "projr (init arab_catalog)"
  let ?bag = "[(''DP02_0126'', family_val (the (family_by_code ?c ''DP02_0126E'')))]"
  have a: "families_at ?c (Tokens [''ANCESTRY'', ''Total population'', ''Arab'']) = Inr (PDict ?bag)"
    by code_simp
  have b: "?bag \<noteq> []" by simp
  have c: "subtree ?c (Tokens ([''ANCESTRY'', ''Total population'', ''Arab''] @ [FAMILIES])) = Inr (PDict ?bag)"
    using subtree_reaches_bag [OF a b] by blast
  have d: "subtree ?c
      (Tokens [''ANCESTRY'', ''Total population'', ''Arab'', ''_families_'', ''DP02_0126'', ''meta'', ''base''])
     = Inr (PStr ''DP02_0126'')" by code_simp
  from a c d show ?thesis by (simp add: FAMILIES_def)
qed

section \<open>Queries below a family\<close>

text \<open>
  C4: \<open>subtree\<close> and \<open>families_at\<close> raise for a path that runs through the bag and a
  family down to a string: at \<open>meta.base\<close> the walk holds a string, the next round of
  the loop calls \<open>get\<close> on it, and \<open>families_at\<close> calls \<open>get\<close> on the string that
  \<open>subtree\<close> returned.
\<close>

theorem subtree_raises_below_family:
  "init arab_catalog = Inr (projr (init arab_catalog)) \<and>
   subtree (projr (init arab_catalog))
      (Tokens [''ANCESTRY'', ''Total population'', ''Arab'', ''_families_'', ''DP02_0126'',
               ''meta'', ''base'', ''x'']) = Inl AttributeError \<and>
   subtree (projr (init arab_catalog))
      (Slashed ''ANCESTRY/Total population/Arab/_families_/DP02_0126/meta/base/x'')
     = Inl AttributeError \<and>
   families_at (projr (init arab_catalog))
      (Tokens [''ANCESTRY'', ''Total population'', ''Arab'', ''_families_'', ''DP02_0126'',
               ''meta'', ''base'']) = Inl AttributeError"
  by code_simp

section \<open>A family that is in no bag\<close>

text \<open>
  C1: for \<open>lost_catalog\<close> the mapping holds two families and the tree holds one. The
  path of the first family runs through the key \<open>_families_\<close> of node \<open>Y\<close> and the
  key \<open>DP02_0002\<close> below it; the second family is then stored at node \<open>Y\<close> under that
  same bag and base and replaces the dictionary that held the first.
\<close>

theorem family_lost_from_tree:
  "init lost_catalog = Inr (projr (init lost_catalog)) \<and>
   map fst (families (projr (init lost_catalog))) = [''DP02_0001'', ''DP02_0002''] \<and>
   family_path ''DP02_0001'' (the (family_by_code (projr (init lost_catalog)) ''DP02_0001E''))
     = [''Y'', ''_families_'', ''DP02_0002''] \<and>
   tree (projr (init lost_catalog)) =
     PDict [(''Y'', PDict [(''_families_'', PDict
       [(''DP02_0002'',
         family_val (the (family_by_code (projr (init lost_catalog)) ''DP02_0002E'')))])])] \<and>
   families_at (projr (init lost_catalog)) (Tokens [''Y'']) =
     Inr (PDict [(''DP02_0002'',
       family_val (the (family_by_code (projr (init lost_catalog)) ''DP02_0002E'')))]) \<and>
   families_at (projr (init lost_catalog)) (Tokens [''Y'', ''_families_'', ''DP02_0002''])
     = Inr (PDict [])"
  by code_simp

section \<open>The document and the concept\<close>

text \<open>
  C2: a family without concept and a family whose concept is the text \<open>None\<close> give the
  same elements, so the concept cannot be read back from the document.
\<close>

theorem dump_xml_concept_not_recoverable:
  "dump_xml (projr (init (concept_catalog None))) ''ACSProfile'' True True =
   dump_xml (projr (init (concept_catalog (Some ''None'')))) ''ACSProfile'' True True \<and>
   dump_xml (projr (init (concept_catalog None))) ''ACSProfile'' True True =
     Inr (Element ''ACSProfile'' [] PNone
       [Element ''Node'' [(''name'', PStr ''Y'')] PNone
         [Element ''Family''
            [(''base'', PStr ''DP02_0001''), (''group'', PStr ''DP02''), (''concept'', PStr ''None'')]
            PNone
            [Element ''FamilyLabel'' [] (PStr ''Estimate!!Y'') [],
             Element ''Member''
               [(''measure'', PStr ''estimate''), (''var'', PStr ''DP02_0001E''),
                (''predicateType'', PStr ''int'')]
               PNone
               [Element ''Label'' [] (PStr ''Estimate!!Y'') []]]]]) \<and>
   map_option (meta_concept \<circ> meta) (family_by_code (projr (init (concept_catalog None))) ''DP02_0001E'')
     = Some None \<and>
   map_option (meta_concept \<circ> meta)
     (family_by_code (projr (init (concept_catalog (Some ''None'')))) ''DP02_0001E'')
     = Some (Some ''None'')"
  by code_simp

section \<open>Insertion into the tree\<close>

lemma tree_insert_dict:
  "tree_insert t p b v = Inr t' \<Longrightarrow> \<exists>kvs. t' = PDict kvs"
  by (induction t p b v rule: tree_insert.induct)
     (auto split: option.splits pyval.splits sum.splits)

lemma dict_get_update:
  "dict_get (AList.update k v kvs) k' = (if k' = k then v else dict_get kvs k')"
  by (simp add: dict_get_def update_conv')

lemma walk_Cons:
  "walk (PDict kvs) (k # q) =
     (if dict_get kvs k = PNone then Inr PNone else walk (dict_get kvs k) q)"
  by (cases "dict_get kvs k") simp_all

lemma walk_empty: "q \<noteq> [] \<Longrightarrow> walk (PDict []) q = Inr PNone"
  by (cases q) (simp_all add: dict_get_def)

lemma walk_Nil: "walk node [] = Inr node"
  by simp

lemmas walk_rules = walk_Nil walk_Cons dict_get_update

lemma tree_insert_leaf:
  assumes "tree_insert (PDict kvs) [] b fam = Inr t'"
  obtains bag where "t' = PDict (AList.update FAMILIES (PDict (AList.update b fam bag)) kvs)"
    and "dict_get kvs FAMILIES = PNone \<and> bag = [] \<or> dict_get kvs FAMILIES = PDict bag"
proof (cases "map_of kvs FAMILIES")
  case None
  with assms have "t' = PDict (AList.update FAMILIES (PDict (AList.update b fam [])) kvs)"
    and "dict_get kvs FAMILIES = PNone"
    by (simp_all add: dict_get_def)
  then show ?thesis using that by blast
next
  case (Some old)
  with assms obtain bag where "old = PDict bag"
    by (cases old) simp_all
  with Some assms have "t' = PDict (AList.update FAMILIES (PDict (AList.update b fam bag)) kvs)"
    and "dict_get kvs FAMILIES = PDict bag"
    by (simp_all add: dict_get_def)
  then show ?thesis using that by blast
qed

lemma tree_insert_stored:
  "tree_insert t p b v = Inr t' \<Longrightarrow> v \<noteq> PNone \<Longrightarrow> walk t' (p @ [FAMILIES, b]) = Inr v"
proof (induction t p b v arbitrary: t' rule: tree_insert.induct)
  case (1 kvs b fam)
  from tree_insert_leaf [OF 1(1)] obtain bag
    where t': "t' = PDict (AList.update FAMILIES (PDict (AList.update b fam bag)) kvs)"
    by blast
  with 1(2) show ?case
    by (simp add: walk_rules del: walk.simps(2))
next
  case (2 kvs token path b fam)
  then obtain child where c: "tree_insert (case map_of kvs token of None \<Rightarrow> PDict [] | Some child \<Rightarrow> child) path b fam = Inr child"
    and t': "t' = PDict (AList.update token child kvs)"
    by (auto split: sum.splits)
  from tree_insert_dict [OF c] obtain ckvs where "child = PDict ckvs" by blast
  with 2(1) [OF c 2(3)] t' show ?case
    by (simp add: walk_rules del: walk.simps(2))
qed simp_all

lemma tree_insert_frame:
  "tree_insert t p b v = Inr t' \<Longrightarrow> diverge q (p @ [FAMILIES, b]) \<Longrightarrow> walk t' q = walk t q"
proof (induction t p b v arbitrary: t' q rule: tree_insert.induct)
  case (1 kvs b fam)
  from 1(2) obtain x q' where q: "q = x # q'" by (cases q) auto
  from tree_insert_leaf [OF 1(1)] obtain bag
    where t': "t' = PDict (AList.update FAMILIES (PDict (AList.update b fam bag)) kvs)"
      and bag: "dict_get kvs FAMILIES = PNone \<and> bag = [] \<or> dict_get kvs FAMILIES = PDict bag"
    by blast
  show ?case
  proof (cases "x = FAMILIES")
    case False
    with t' q show ?thesis
      by (simp add: walk_rules del: walk.simps(2))
  next
    case True
    with 1(2) q obtain y q'' where q': "q' = y # q''" and y: "y \<noteq> b"
      by (cases q') auto
    from bag show ?thesis
    proof
      assume "dict_get kvs FAMILIES = PNone \<and> bag = []"
      with y have "dict_get kvs FAMILIES = PNone" and "dict_get [(b, fam)] y = PNone"
        and "bag = []"
        by (simp_all add: dict_get_def)
      with t' q q' y True show ?thesis
        by (simp add: walk_rules del: walk.simps(2))
    next
      assume "dict_get kvs FAMILIES = PDict bag"
      with t' q q' y True show ?thesis
        by (simp add: walk_rules del: walk.simps(2))
    qed
  qed
next
  case (2 kvs token path b fam)
  then obtain child where c: "tree_insert (case map_of kvs token of None \<Rightarrow> PDict [] | Some child \<Rightarrow> child) path b fam = Inr child"
    and t': "t' = PDict (AList.update token child kvs)"
    by (auto split: sum.splits)
  from tree_insert_dict [OF c] obtain ckvs where ck: "child = PDict ckvs" by blast
  from 2(3) obtain x q' where q: "q = x # q'" by (cases q) auto
  show ?case
  proof (cases "x = token")
    case False
    with t' q show ?thesis by (simp add: walk_rules del: walk.simps(2))
  next
    case True
    with 2(3) q have d: "diverge q' (path @ [FAMILIES, b])" by simp
    then have ne: "q' \<noteq> []" by (cases q') auto
    from 2(1) [OF c d] have IH: "walk child q' = walk (case map_of kvs token of None \<Rightarrow> PDict [] | Some child \<Rightarrow> child) q'" .
    show ?thesis
    proof (cases "map_of kvs token")
      case None
      then have "dict_get kvs token = PNone" by (simp add: dict_get_def)
      with None IH t' q True ck ne show ?thesis
        by (simp add: walk_rules walk_empty del: walk.simps(2))
    next
      case (Some old)
      with c have "old \<noteq> PNone" by (cases old) (auto)
      moreover from Some have "dict_get kvs token = old" by (simp add: dict_get_def)
      ultimately show ?thesis using IH t' q True ck Some
        by (simp add: walk_rules del: walk.simps(2))
    qed
  qed
qed simp_all


lemma diverge_paths:
  "FAMILIES \<notin> set p \<Longrightarrow> FAMILIES \<notin> set p' \<Longrightarrow> b \<noteq> b' \<Longrightarrow>
     diverge (p @ [FAMILIES, b]) (p' @ [FAMILIES, b'])"
proof (induction p arbitrary: p')
  case Nil
  then show ?case by (cases p') auto
next
  case (Cons x p)
  then show ?case by (cases p') auto
qed

lemma build_tree_snoc: "build_tree (fams @ [bf]) = tree_step (build_tree fams) bf"
  by (simp add: build_tree_def)

lemma family_val_not_None: "family_val f \<noteq> PNone"
  by (simp add: family_val_def)

lemma build_tree_stored:
  assumes "build_tree fams = Inr t" and "distinct (map fst fams)"
    and "\<forall>bf \<in> set fams. FAMILIES \<notin> set (family_path (fst bf) (snd bf))"
    and "(b, f) \<in> set fams"
  shows "walk t (family_path b f @ [FAMILIES, b]) = Inr (family_val f)"
  using assms
proof (induction fams arbitrary: t rule: rev_induct)
  case Nil
  then show ?case by simp
next
  case (snoc bf fams)
  obtain b' f' where bf: "bf = (b', f')" by (cases bf)
  from snoc.prems(1) obtain t0 where t0: "build_tree fams = Inr t0"
      and ins: "tree_insert t0 (family_path b' f') b' (family_val f') = Inr t"
    unfolding build_tree_snoc bf tree_step_def by (auto split: sum.splits)
  show ?case
  proof (cases "(b, f) = (b', f')")
    case True
    with tree_insert_stored [OF ins family_val_not_None] show ?thesis by simp
  next
    case False
    with snoc.prems(4) bf have mem: "(b, f) \<in> set fams" by auto
    with snoc.prems(2) bf have ne: "b \<noteq> b'" by force
    from snoc.prems(2,3) have "distinct (map fst fams)"
      and "\<forall>bf \<in> set fams. FAMILIES \<notin> set (family_path (fst bf) (snd bf))"
      by simp_all
    from snoc.IH [OF t0 this mem]
    have old: "walk t0 (family_path b f @ [FAMILIES, b]) = Inr (family_val f)" .
    from snoc.prems(3) mem bf have "FAMILIES \<notin> set (family_path b f)"
      and "FAMILIES \<notin> set (family_path b' f')"
      by force+
    from diverge_paths [OF this ne] tree_insert_frame [OF ins] old
    show ?thesis by simp
  qed
qed

lemma set_update_subset: "set (AList.update k v al) \<subseteq> insert (k, v) (set al)"
  by (induction al) auto

lemma node_ok_update:
  assumes "node_ok (PDict kvs)"
    and "if k = FAMILIES then (\<exists>bag. v = PDict bag) else node_ok v"
  shows "node_ok (PDict (AList.update k v kvs))"
  unfolding node_ok.simps
proof
  fix kv assume "kv \<in> set (AList.update k v kvs)"
  with set_update_subset [of k v kvs] have "kv = (k, v) \<or> kv \<in> set kvs" by auto
  with assms show "if fst kv = FAMILIES then \<exists>bag. snd kv = PDict bag else node_ok (snd kv)"
    by auto
qed

lemma tree_insert_ok:
  "node_ok t \<Longrightarrow> FAMILIES \<notin> set p \<Longrightarrow> \<exists>t'. tree_insert t p b v = Inr t' \<and> node_ok t'"
proof (induction t p b v rule: tree_insert.induct)
  case (1 kvs b fam)
  show ?case
  proof (cases "map_of kvs FAMILIES")
    case None
    with node_ok_update [OF 1(1), of FAMILIES "PDict [(b, fam)]"] show ?thesis by simp
  next
    case (Some old)
    then have "(FAMILIES, old) \<in> set kvs" by (rule map_of_SomeD)
    with 1(1) obtain bag where "old = PDict bag" by force
    with Some node_ok_update [OF 1(1), of FAMILIES "PDict (AList.update b fam bag)"]
    show ?thesis by simp
  qed
next
  case (2 kvs token path b fam)
  let ?child = "case map_of kvs token of None \<Rightarrow> PDict [] | Some child \<Rightarrow> child"
  from 2(3) have tok: "token \<noteq> FAMILIES" and rest: "FAMILIES \<notin> set path" by auto
  have "node_ok ?child"
  proof (cases "map_of kvs token")
    case None
    then show ?thesis by simp
  next
    case (Some old)
    then have "(token, old) \<in> set kvs" by (rule map_of_SomeD)
    with 2(2) tok Some show ?thesis by force
  qed
  from 2(1) [OF this rest] obtain child where c: "tree_insert ?child path b fam = Inr child"
      and ok: "node_ok child" by blast
  from node_ok_update [OF 2(2), of token child] tok ok c show ?case by simp
qed simp_all

lemma build_tree_ok:
  assumes "\<forall>bf \<in> set fams. FAMILIES \<notin> set (family_path (fst bf) (snd bf))"
  shows "\<exists>t. build_tree fams = Inr t \<and> node_ok t"
  using assms
proof (induction fams rule: rev_induct)
  case Nil
  then show ?case by (simp add: build_tree_def)
next
  case (snoc bf fams)
  then obtain t0 where t0: "build_tree fams = Inr t0" and ok: "node_ok t0" by auto
  from snoc.prems have "FAMILIES \<notin> set (family_path (fst bf) (snd bf))" by simp
  from tree_insert_ok [OF ok this] t0 show ?case
    unfolding build_tree_snoc tree_step_def by simp
qed


lemma walk_bag:
  "walk t (p @ [k1, k2]) = Inr v \<Longrightarrow> v \<noteq> PNone \<Longrightarrow>
     \<exists>kvs bag. walk t p = Inr (PDict kvs) \<and> map_of kvs k1 = Some (PDict bag) \<and>
        map_of bag k2 = Some v"
proof (induction p arbitrary: t)
  case Nil
  then obtain kvs where t: "t = PDict kvs" by (cases t) auto
  with Nil have 1: "dict_get kvs k1 \<noteq> PNone" and 2: "walk (dict_get kvs k1) [k2] = Inr v"
    by (auto simp: walk_Cons simp del: walk.simps(2) split: if_splits)
  from 2 obtain bag where bag: "dict_get kvs k1 = PDict bag"
    by (cases "dict_get kvs k1") (use 1 in auto)
  with 2 Nil(2) have "dict_get bag k2 = v"
    by (auto simp: walk_Cons simp del: walk.simps(2) split: if_splits)
  with bag Nil(2) t show ?case
    by (auto simp: dict_get_def split: option.splits)
next
  case (Cons k p)
  then obtain kvs where t: "t = PDict kvs" by (cases t) auto
  with Cons.prems have "walk (dict_get kvs k) (p @ [k1, k2]) = Inr v" and "dict_get kvs k \<noteq> PNone"
    by (auto simp: walk_Cons simp del: walk.simps(2) split: if_splits)
  with Cons.IH [of "dict_get kvs k"] Cons.prems(2) t show ?case
    by (simp add: walk_Cons del: walk.simps(2))
qed

lemma families_at_bag:
  assumes "walk (tree self) p = Inr (PDict kvs)" and "map_of kvs FAMILIES = Some (PDict bag)"
  shows "families_at self (Tokens p) = Inr (PDict bag)"
proof -
  from assms(2) have "kvs \<noteq> []" by auto
  with assms show ?thesis
    by (simp add: families_at_def subtree_def path_tokens_def truthy_def)
qed

section \<open>The path of a family\<close>

text \<open>Joining the pieces of a split with the separator gives the string back.\<close>

lemma split_acc_not_empty: "split_acc s0 st acc s \<noteq> []"
  by (induction s0 st acc s rule: split_acc.induct) (auto split: option.splits)

lemma join_Cons: "xs \<noteq> [] \<Longrightarrow> join sep (x # xs) = x @ sep @ join sep xs"
  by (cases xs) simp_all

lemma join_split_acc: "join (s0 # st) (split_acc s0 st acc s) = rev acc @ s"
proof (induction s0 st acc s rule: split_acc.induct)
  case (1 s0 st acc)
  then show ?case by simp
next
  case (2 s0 st acc c cs)
  show ?case
  proof (cases "strip_prefix (s0 # st) (c # cs)")
    case None
    from 2(1) [OF None] have "join (s0 # st) (split_acc s0 st (c # acc) cs) = rev acc @ c # cs"
      by simp
    moreover from None
    have "split_acc s0 st acc (c # cs) = split_acc s0 st (c # acc) cs"
      by (simp only: split_acc.simps option.case)
    ultimately show ?thesis by (simp only:)
  next
    case (Some rest)
    then have "c # cs = (s0 # st) @ rest" by (simp only: strip_prefix_iff)
    moreover from Some
    have "split_acc s0 st acc (c # cs) = rev acc # split_acc s0 st [] rest"
      by (simp only: split_acc.simps option.case)
    moreover from 2(2) [OF Some] have "join (s0 # st) (split_acc s0 st [] rest) = rest"
      by simp
    ultimately show ?thesis
      by (simp add: join_Cons [OF split_acc_not_empty])
  qed
qed

lemma join_split: "join (s0 # st) (split s0 st s) = s"
  by (simp add: split_def join_split_acc)

lemma lower_char_eq_iff:
  assumes "lower_ascii d"
  shows "lower_char c = d \<longleftrightarrow> same_letter c d"
proof -
  have c: "(of_char c :: nat) < 256" by simp
  have d: "char_of (of_char c + 32 :: nat) = d \<longleftrightarrow> (of_char c :: nat) + 32 = of_char d"
    if "(of_char c :: nat) + 32 < 256"
    using that by (auto simp: char_of_eq_iff take_bit_eq_mod)
  show ?thesis
    using assms c d
    unfolding lower_char_def same_letter_def is_letter_def lower_ascii_def Let_def
    by (cases "c = d") auto
qed


lemma lower_eq_iff:
  "list_all lower_ascii w \<Longrightarrow> lower t = w \<longleftrightarrow> ci_equal t w"
proof (induction t arbitrary: w)
  case Nil
  then show ?case by (auto simp: lower_def ci_equal_def)
next
  case (Cons c t)
  show ?case
  proof (cases w)
    case Nil
    then show ?thesis by (simp add: lower_def ci_equal_def)
  next
    case (Cons d w')
    with Cons.prems have d: "lower_ascii d" and w': "list_all lower_ascii w'" by simp_all
    from Cons.IH [OF w'] lower_char_eq_iff [OF d, of c] Cons
    show ?thesis by (simp add: lower_def ci_equal_def)
  qed
qed

lemma lower_measure_word:
  "lower t \<in> {''estimate'', ''percent''} \<longleftrightarrow> ci_equal t ''estimate'' \<or> ci_equal t ''percent''"
proof -
  have "list_all lower_ascii ''estimate''" and "list_all lower_ascii ''percent''"
    by (simp_all add: lower_ascii_def)
  then show ?thesis by (simp add: lower_eq_iff)
qed

lemma label_tokens_filter:
  "label_tokens lab = filter (\<lambda>t. t \<noteq> []) (map strip (split (CHR ''!'') ''!'' lab))"
  by (simp add: label_tokens_def filter_map comp_def)

lemma fallback_first_non_empty:
  "(case c of
      Some c \<Rightarrow> if c \<noteq> [] then c
                 else (case g of Some g \<Rightarrow> if g \<noteq> [] then g else b | None \<Rightarrow> b)
    | None \<Rightarrow> (case g of Some g \<Rightarrow> if g \<noteq> [] then g else b | None \<Rightarrow> b)) =
   first_non_empty ((case c of None \<Rightarrow> [] | Some c \<Rightarrow> [c]) @ (case g of None \<Rightarrow> [] | Some g \<Rightarrow> [g])) b"
  by (simp add: first_non_empty_def split: option.splits)

text \<open>Splitting at the separator, and trimming.\<close>

lemma occurs_Cons: "occurs sep s \<Longrightarrow> occurs sep (c # s)"
  unfolding occurs_def by (metis append_Cons)

lemma occurs_prefix: "occurs sep (sep @ w)"
  unfolding occurs_def by (metis append_Nil)

lemma split_acc_no_separator:
  "\<not> occurs (s0 # st) s \<Longrightarrow> split_acc s0 st acc s = [rev acc @ s]"
proof (induction s0 st acc s rule: split_acc.induct)
  case (1 s0 st acc)
  then show ?case by simp
next
  case (2 s0 st acc c cs)
  have none: "strip_prefix (s0 # st) (c # cs) = None"
  proof (cases "strip_prefix (s0 # st) (c # cs)")
    case (Some rest)
    then have "c # cs = (s0 # st) @ rest" by (simp only: strip_prefix_iff)
    with occurs_prefix [of "s0 # st" rest] 2(3) show ?thesis by simp
  qed simp
  from 2(3) occurs_Cons [of "s0 # st" cs c] have "\<not> occurs (s0 # st) cs" by blast
  from 2(1) [OF none this] none show ?case by simp
qed

lemma early_separator:
  assumes "sep @ rest = u @ sep @ v" and "u \<noteq> []" and "sep \<noteq> []"
  shows "occurs sep (u @ butlast sep)"
proof -
  let ?n = "length sep"
  have len: "?n \<le> length (u @ butlast sep)" using assms(2,3) by (cases u) simp_all
  have "sep = take ?n (sep @ rest)" by simp
  also have "\<dots> = take ?n (u @ sep @ v)" using assms(1) by simp
  also have "u @ sep @ v = (u @ butlast sep) @ (last sep # v)"
    using assms(3) by (simp add: append_butlast_last_id [symmetric] del: append_butlast_last_id)
  also have "take ?n ((u @ butlast sep) @ (last sep # v)) = take ?n (u @ butlast sep)"
    using len by simp
  finally have "sep = take ?n (u @ butlast sep)" .
  then have "u @ butlast sep = sep @ drop ?n (u @ butlast sep)"
    by (metis append_take_drop_id)
  then show ?thesis using occurs_prefix by metis
qed

lemma split_acc_first_separator:
  "\<not> occurs (s0 # st) (u @ butlast (s0 # st)) \<Longrightarrow>
     split_acc s0 st acc (u @ (s0 # st) @ v) = (rev acc @ u) # split_acc s0 st [] v"
proof (induction u arbitrary: acc)
  case Nil
  have "strip_prefix (s0 # st) ((s0 # st) @ v) = Some v" by (simp only: strip_prefix_iff)
  then show ?case by simp
next
  case (Cons c u)
  have none: "strip_prefix (s0 # st) (c # u @ (s0 # st) @ v) = None"
  proof (cases "strip_prefix (s0 # st) (c # u @ (s0 # st) @ v)")
    case (Some rest)
    then have "(s0 # st) @ rest = (c # u) @ (s0 # st) @ v" by (simp only: strip_prefix_iff) simp
    from early_separator [OF this] Cons.prems show ?thesis by simp
  qed simp
  from Cons.prems occurs_Cons [of "s0 # st" "u @ butlast (s0 # st)" c]
  have "\<not> occurs (s0 # st) (u @ butlast (s0 # st))" by auto
  from Cons.IH [OF this, of "c # acc"] none show ?case by simp
qed

lemma strip_trimmed: "trimmed_of (strip p) p"
proof -
  let ?rest = "dropWhile is_space p"
  let ?l = "takeWhile is_space p"
  let ?r = "rev (takeWhile is_space (rev ?rest))"
  let ?t = "rev (dropWhile is_space (rev ?rest))"
  have t: "strip p = ?t" by (simp add: strip_def)
  have "?t @ ?r = rev (takeWhile is_space (rev ?rest) @ dropWhile is_space (rev ?rest))"
    by (simp only: rev_append)
  also have "\<dots> = rev (rev ?rest)" by (simp only: takeWhile_dropWhile_id)
  finally have rest: "?rest = ?t @ ?r" by simp
  have p: "p = ?l @ ?t @ ?r" using rest by (metis takeWhile_dropWhile_id)
  have l: "list_all is_space ?l" by (simp add: list_all_iff) (metis set_takeWhileD)
  have r: "list_all is_space ?r" by (simp add: list_all_iff) (metis set_takeWhileD)
  have ends: "\<not> is_space (hd ?t) \<and> \<not> is_space (last ?t)" if ne: "?t \<noteq> []"
  proof
    from ne have "dropWhile is_space (rev ?rest) \<noteq> []" by simp
    then have "\<not> is_space (hd (dropWhile is_space (rev ?rest)))" by (rule hd_dropWhile)
    with ne show "\<not> is_space (last ?t)" by (simp add: last_rev)
    have "?rest \<noteq> []"
    proof
      assume "?rest = []"
      then have "?t = []" by (simp only: rev.simps dropWhile.simps)
      with ne show False by (rule notE)
    qed
    then have "\<not> is_space (hd ?rest)" by (rule hd_dropWhile)
    moreover from ne rest have "hd ?rest = hd ?t" by (metis hd_append2)
    ultimately show "\<not> is_space (hd ?t)" by simp
  qed
  from p l r ends show ?thesis unfolding trimmed_of_def t by blast
qed

lemma split_no_separator: "\<not> occurs (s0 # st) s \<Longrightarrow> split s0 st s = [s]"
  by (simp add: split_def split_acc_no_separator)

lemma split_first_separator:
  assumes "\<not> occurs (s0 # st) (u @ butlast (s0 # st))"
  shows "split s0 st (u @ (s0 # st) @ v) = u # split s0 st v"
proof -
  from split_acc_first_separator [OF assms, of "[]" v]
  show ?thesis by (simp only: split_def rev.simps append_Nil)
qed

lemma family_path_spec_path: "family_path b fam = spec_path b fam"
  unfolding family_path_def spec_path_def Let_def label_tokens_filter [symmetric]
    fallback_first_non_empty lower_measure_word
  by (cases "label_tokens (case meta_label (meta fam) of None \<Rightarrow> [] | Some s \<Rightarrow> s)") simp_all

lemma family_at_its_path:
  assumes "(b, fam) \<in> set (build_families vars)"
    and "\<forall>bf \<in> set (build_families vars). FAMILIES \<notin> set (family_path (fst bf) (snd bf))"
  shows "\<exists>self bag. init vars = Inr self \<and>
           families_at self (Tokens (family_path b fam)) = Inr (PDict bag) \<and>
           map_of bag b = Some (family_val fam)"
proof -
  from build_tree_ok [OF assms(2)] obtain t where t: "build_tree (build_families vars) = Inr t"
    by blast
  define self where "self = \<lparr>raw = vars, families = build_families vars, tree = t,
       by_group_index = foldl group_step [] (build_families vars),
       by_attribute_index = foldl (attribute_step (build_families vars)) [] vars\<rparr>"
  have init: "init vars = Inr self"
    using t by (simp add: init_def self_def Let_def)
  from build_tree_stored [OF t build_families_distinct assms(2,1)]
  have "walk t (family_path b fam @ [FAMILIES, b]) = Inr (family_val fam)" .
  from walk_bag [OF this family_val_not_None]
  obtain kvs bag where "walk t (family_path b fam) = Inr (PDict kvs)"
      and "map_of kvs FAMILIES = Some (PDict bag)"
      and bag: "map_of bag b = Some (family_val fam)"
    by blast
  then have "families_at self (Tokens (family_path b fam)) = Inr (PDict bag)"
    by (intro families_at_bag [where kvs = kvs]) (simp_all add: self_def)
  with init bag show ?thesis by blast
qed

text \<open>
  C8: the path the tree builder computes for a family is the path of the
  specification: the label is split at \<open>!!\<close>, the pieces are trimmed and the empty ones
  dropped, a first token that is \<open>estimate\<close> or \<open>percent\<close> in any case is dropped, and,
  when nothing is left, the path is the single token that is the first non-empty of
  concept, group and base. Splitting is cutting at the first occurrence of the
  delimiter, from the left, again and again: a text without the delimiter is one
  piece, and a text that has its first delimiter after \<open>u\<close> gives the piece \<open>u\<close> and
  the pieces of what follows the delimiter. Trimming takes whitespace off both ends
  and nothing else. When no family of the catalog has the reserved key as a token of
  its path, the object is built and the bag at that path holds the family.
\<close>

theorem family_path_as_specified:
  "family_path b fam = spec_path b fam \<and>
   (\<forall>s. \<not> occurs ''!!'' s \<longrightarrow> split (CHR ''!'') ''!'' s = [s]) \<and>
   (\<forall>u v. \<not> occurs ''!!'' (u @ ''!'') \<longrightarrow>
      split (CHR ''!'') ''!'' (u @ ''!!'' @ v) = u # split (CHR ''!'') ''!'' v) \<and>
   (\<forall>p. trimmed_of (strip p) p) \<and>
   (\<forall>vars. (b, fam) \<in> set (build_families vars) \<and>
      (\<forall>bf \<in> set (build_families vars). FAMILIES \<notin> set (family_path (fst bf) (snd bf))) \<longrightarrow>
      (\<exists>self bag. init vars = Inr self \<and>
         families_at self (Tokens (spec_path b fam)) = Inr (PDict bag) \<and>
         map_of bag b = Some (family_val fam)))"
proof -
  have 1: "split (CHR ''!'') ''!'' s = [s]" if "\<not> occurs ''!!'' s" for s
    using that by (intro split_no_separator) simp
  have 2: "split (CHR ''!'') ''!'' (u @ ''!!'' @ v) = u # split (CHR ''!'') ''!'' v"
    if "\<not> occurs ''!!'' (u @ ''!'')" for u v
    using that split_first_separator [of "CHR ''!''" "''!''" u v] by simp
  have 3: "\<exists>self bag. init vars = Inr self \<and>
         families_at self (Tokens (spec_path b fam)) = Inr (PDict bag) \<and>
         map_of bag b = Some (family_val fam)"
    if "(b, fam) \<in> set (build_families vars)"
      and "\<forall>bf \<in> set (build_families vars). FAMILIES \<notin> set (family_path (fst bf) (snd bf))"
    for vars
    using family_at_its_path [OF that] by (simp only: family_path_spec_path)
  from family_path_spec_path 1 2 strip_trimmed 3 show ?thesis by blast
qed

theorem family_path_as_specified_witness:
  "family_path ''DP02_0126'' odd_label_family = [''ANCESTRY'', ''!Total population'', ''Arab''] \<and>
   spec_path ''DP02_0126'' odd_label_family = [''ANCESTRY'', ''!Total population'', ''Arab''] \<and>
   family_path ''DP02_0126'' no_label_family = [''DP02''] \<and>
   spec_path ''DP02_0126'' no_label_family = [''DP02''] \<and>
   family_path ''DP02_0126''
     (no_label_family\<lparr>meta := (meta no_label_family)\<lparr>meta_group := None\<rparr>\<rparr>) = [''DP02_0126''] \<and>
   split (CHR ''!'') ''!'' ''ANCESTRY!!!Total population !! !!Arab''
     = [''ANCESTRY'', ''!Total population '', '' '', ''Arab''] \<and>
   strip ([CHR 0x09] @ ''ESTIMATE '' @ [CHR 0xA0]) = ''ESTIMATE''"
proof -
  have a: "family_path ''DP02_0126'' odd_label_family
      = [''ANCESTRY'', ''!Total population'', ''Arab'']" by code_simp
  have b: "family_path ''DP02_0126'' no_label_family = [''DP02'']" by code_simp
  have c: "family_path ''DP02_0126''
     (no_label_family\<lparr>meta := (meta no_label_family)\<lparr>meta_group := None\<rparr>\<rparr>) = [''DP02_0126'']"
    by code_simp
  have d: "split (CHR ''!'') ''!'' ''ANCESTRY!!!Total population !! !!Arab''
     = [''ANCESTRY'', ''!Total population '', '' '', ''Arab'']" by code_simp
  have e: "strip ([CHR 0x09] @ ''ESTIMATE '' @ [CHR 0xA0]) = ''ESTIMATE''" by code_simp
  from family_path_as_specified [of "''DP02_0126''" odd_label_family]
  have f: "family_path ''DP02_0126'' odd_label_family = spec_path ''DP02_0126'' odd_label_family"
    by blast
  from family_path_as_specified [of "''DP02_0126''" no_label_family]
  have g: "family_path ''DP02_0126'' no_label_family = spec_path ''DP02_0126'' no_label_family"
    by blast
  from a b c d e f g show ?thesis by simp
qed

section \<open>The Arab ancestry line\<close>

lemma arab_code: "var_base ''DP02_0126E'' = Some ''DP02_0126'' \<and> var_measure ''DP02_0126E'' = Some ''estimate''"
  by code_simp

lemma ancestry_lower: "lower ''ANCESTRY'' = ''ancestry''"
  by code_simp

lemma arab_path:
  assumes "meta_label (meta fam) = Some l0"
    and "label_tokens l0 = [''ANCESTRY'', ''Total population'', ''Arab''] \<or>
         (\<exists>w. label_tokens l0 = w # [''ANCESTRY'', ''Total population'', ''Arab''] \<and>
              lower w \<in> {''estimate'', ''percent''})"
  shows "family_path b fam = [''ANCESTRY'', ''Total population'', ''Arab'']"
  using assms(2)
proof
  assume "label_tokens l0 = [''ANCESTRY'', ''Total population'', ''Arab'']"
  with assms(1) ancestry_lower show ?thesis
    unfolding family_path_def Let_def by simp
next
  assume "\<exists>w. label_tokens l0 = w # [''ANCESTRY'', ''Total population'', ''Arab''] \<and>
              lower w \<in> {''estimate'', ''percent''}"
  then obtain w where "label_tokens l0 = w # [''ANCESTRY'', ''Total population'', ''Arab'']"
      and "lower w \<in> {''estimate'', ''percent''}" by blast
  with assms(1) show ?thesis
    unfolding family_path_def Let_def by simp
qed

text \<open>
  C6: take a catalog that contains \<open>DP02_0126E\<close> with the label
  \<open>Estimate!!ANCESTRY!!Total population!!Arab\<close>, in which the label of the first
  variable of base \<open>DP02_0126\<close> resolves to the path \<open>ANCESTRY\<close>, \<open>Total population\<close>,
  \<open>Arab\<close> (its tokens are that path, or one token that is \<open>estimate\<close> or \<open>percent\<close> in
  any case and then that path), and in which no family has the reserved key
  \<open>_families_\<close> as a token of its path. Then the object is built, the family of the
  code has base \<open>DP02_0126\<close> and a member under \<open>estimate\<close>, and the bag at the path
  \<open>ANCESTRY\<close>, \<open>Total population\<close>, \<open>Arab\<close> holds that family under its base.
\<close>

theorem arab_family_reachable:
  assumes "(''DP02_0126E'', i) \<in> set vars"
    and "info_label i = Some ''Estimate!!ANCESTRY!!Total population!!Arab''"
    and "find (\<lambda>vi. var_base (fst vi) = Some ''DP02_0126'') vars = Some (v0, i0)"
    and "info_label i0 = Some l0"
    and "label_tokens l0 = [''ANCESTRY'', ''Total population'', ''Arab''] \<or>
         (\<exists>w. label_tokens l0 = w # [''ANCESTRY'', ''Total population'', ''Arab''] \<and>
              lower w \<in> {''estimate'', ''percent''})"
    and "\<forall>bf \<in> set (build_families vars). FAMILIES \<notin> set (family_path (fst bf) (snd bf))"
  shows "\<exists>self fam mem bag.
           init vars = Inr self \<and>
           family_by_code self ''DP02_0126E'' = Some fam \<and>
           base (meta fam) = ''DP02_0126'' \<and>
           map_of (members fam) ''estimate'' = Some mem \<and>
           families_at self (Tokens [''ANCESTRY'', ''Total population'', ''Arab''])
             = Inr (PDict bag) \<and>
           map_of bag ''DP02_0126'' = Some (family_val fam)"
proof -
  let ?b = "''DP02_0126''"
  let ?p = "[''ANCESTRY'', ''Total population'', ''Arab'']"
  from build_families_inv [where vars = vars and b = ?b] assms(3)
  obtain fam where fam: "map_of (build_families vars) ?b = Some fam"
      and meta: "meta fam = new_meta ?b i0"
      and mems: "\<forall>m. map_of (members fam) m =
          (case find (\<lambda>vi. var_base (fst vi) = Some ?b \<and> var_measure (fst vi) = Some m) (rev vars) of
             None \<Rightarrow> None | Some vi \<Rightarrow> Some (new_member (fst vi) (snd vi)))"
    by (auto split: option.splits)
  have "find (\<lambda>vi. var_base (fst vi) = Some ?b \<and> var_measure (fst vi) = Some ''estimate'') (rev vars) \<noteq> None"
    using assms(1) arab_code by (auto simp: find_None_iff)
  with mems obtain mem where mem: "map_of (members fam) ''estimate'' = Some mem"
    by (auto split: option.splits)
  from meta assms(4) have "meta_label (meta fam) = Some l0"
    by (simp add: new_meta_def)
  from arab_path [OF this assms(5)] have path: "family_path ?b fam = ?p" .
  from build_tree_ok [OF assms(6)] obtain t where t: "build_tree (build_families vars) = Inr t"
    by blast
  define self where "self = \<lparr>raw = vars, families = build_families vars, tree = t,
       by_group_index = foldl group_step [] (build_families vars),
       by_attribute_index = foldl (attribute_step (build_families vars)) [] vars\<rparr>"
  have init: "init vars = Inr self"
    using t by (simp add: init_def self_def Let_def)
  from fam have "(?b, fam) \<in> set (build_families vars)" by (rule map_of_SomeD)
  from build_tree_stored [OF t build_families_distinct assms(6) this] path
  have "walk t (?p @ [FAMILIES, ?b]) = Inr (family_val fam)" by simp
  from walk_bag [OF this family_val_not_None]
  obtain kvs bag where "walk t ?p = Inr (PDict kvs)" and "map_of kvs FAMILIES = Some (PDict bag)"
      and bag: "map_of bag ?b = Some (family_val fam)"
    by blast
  then have at: "families_at self (Tokens ?p) = Inr (PDict bag)"
    by (intro families_at_bag [where kvs = kvs]) (simp_all add: self_def)
  have code: "family_by_code self ''DP02_0126E'' = Some fam"
    using arab_code fam
    by (auto simp: family_by_code_def var_base_def self_def split: option.splits)
  from meta have "base (meta fam) = ?b" by (simp add: new_meta_def)
  with init code mem at bag show ?thesis by blast
qed

theorem arab_family_reachable_witness:
  "map_of percent_first_catalog ''DP02_0126E'' = Some (snd (percent_first_catalog ! 1)) \<and>
   info_label (snd (percent_first_catalog ! 1))
     = Some ''Estimate!!ANCESTRY!!Total population!!Arab'' \<and>
   find (\<lambda>vi. var_base (fst vi) = Some ''DP02_0126'') percent_first_catalog
     = Some (''DP02_0126PE'', snd (hd percent_first_catalog)) \<and>
   info_label (snd (hd percent_first_catalog))
     = Some ''Percent!!ANCESTRY!!Total population!!Arab'' \<and>
   label_tokens ''Percent!!ANCESTRY!!Total population!!Arab''
     = [''Percent'', ''ANCESTRY'', ''Total population'', ''Arab''] \<and>
   lower ''Percent'' = ''percent'' \<and>
   list_all (\<lambda>bf. FAMILIES \<notin> set (family_path (fst bf) (snd bf)))
     (build_families percent_first_catalog) \<and>
   (\<exists>self fam mem bag.
      init percent_first_catalog = Inr self \<and>
      family_by_code self ''DP02_0126E'' = Some fam \<and>
      base (meta fam) = ''DP02_0126'' \<and>
      map_of (members fam) ''estimate'' = Some mem \<and>
      families_at self (Tokens [''ANCESTRY'', ''Total population'', ''Arab''])
        = Inr (PDict bag) \<and>
      map_of bag ''DP02_0126'' = Some (family_val fam))"
proof -
  have a: "map_of percent_first_catalog ''DP02_0126E'' = Some (snd (percent_first_catalog ! 1))"
    by code_simp
  then have a': "(''DP02_0126E'', snd (percent_first_catalog ! 1)) \<in> set percent_first_catalog"
    by (rule map_of_SomeD)
  have b: "info_label (snd (percent_first_catalog ! 1))
     = Some ''Estimate!!ANCESTRY!!Total population!!Arab''" by code_simp
  have c: "find (\<lambda>vi. var_base (fst vi) = Some ''DP02_0126'') percent_first_catalog
     = Some (''DP02_0126PE'', snd (hd percent_first_catalog))" by code_simp
  have d: "info_label (snd (hd percent_first_catalog))
     = Some ''Percent!!ANCESTRY!!Total population!!Arab''" by code_simp
  have e1: "label_tokens ''Percent!!ANCESTRY!!Total population!!Arab''
     = [''Percent'', ''ANCESTRY'', ''Total population'', ''Arab'']" by code_simp
  have e2: "lower ''Percent'' = ''percent''" by code_simp
  from e1 e2
  have e: "label_tokens ''Percent!!ANCESTRY!!Total population!!Arab''
         = [''ANCESTRY'', ''Total population'', ''Arab''] \<or>
       (\<exists>w. label_tokens ''Percent!!ANCESTRY!!Total population!!Arab''
              = w # [''ANCESTRY'', ''Total population'', ''Arab''] \<and>
            lower w \<in> {''estimate'', ''percent''})"
    by simp
  have f: "list_all (\<lambda>bf. FAMILIES \<notin> set (family_path (fst bf) (snd bf)))
     (build_families percent_first_catalog)" by code_simp
  then have f': "\<forall>bf \<in> set (build_families percent_first_catalog).
      FAMILIES \<notin> set (family_path (fst bf) (snd bf))"
    by (simp add: list_all_iff)
  from a b c d e1 e2 f arab_family_reachable [OF a' b c d e f'] show ?thesis by blast
qed

text \<open>The scenario itself: the estimate is the first variable of its line.\<close>

lemma arab_family_estimate_first:
  "init arab_catalog = Inr (projr (init arab_catalog)) \<and>
   map_option (base \<circ> meta) (family_by_code (projr (init arab_catalog)) ''DP02_0126E'')
     = Some ''DP02_0126'' \<and>
   map_option (map fst \<circ> members) (family_by_code (projr (init arab_catalog)) ''DP02_0126E'')
     = Some [''estimate'', ''percent_estimate''] \<and>
   families_at (projr (init arab_catalog)) (Tokens [''ANCESTRY'', ''Total population'', ''Arab''])
     = Inr (PDict [(''DP02_0126'',
          family_val (the (family_by_code (projr (init arab_catalog)) ''DP02_0126E'')))]) \<and>
   families_at (projr (init arab_catalog)) (Slashed ''ANCESTRY/Total population/Arab'')
     = Inr (PDict [(''DP02_0126'',
          family_val (the (family_by_code (projr (init arab_catalog)) ''DP02_0126E'')))])"
  by code_simp

text \<open>
  C6 as it is worded fails for a catalog that contains the variable after the margin
  of error of the same line: the family takes the label of the first variable, so it is
  stored below \<open>Margin of Error\<close>, and the bag at \<open>ANCESTRY\<close>, \<open>Total population\<close>,
  \<open>Arab\<close> is empty.
\<close>

theorem arab_family_under_margin_of_error:
  "map_option info_label (map_of moe_first_catalog ''DP02_0126E'')
     = Some (Some ''Estimate!!ANCESTRY!!Total population!!Arab'') \<and>
   init moe_first_catalog = Inr (projr (init moe_first_catalog)) \<and>
   map fst (families (projr (init moe_first_catalog))) = [''DP02_0126''] \<and>
   families_at (projr (init moe_first_catalog))
      (Tokens [''ANCESTRY'', ''Total population'', ''Arab'']) = Inr (PDict []) \<and>
   families_at (projr (init moe_first_catalog))
      (Tokens [''Margin of Error'', ''ANCESTRY'', ''Total population'', ''Arab''])
     = Inr (PDict [(''DP02_0126'',
          family_val (the (family_by_code (projr (init moe_first_catalog)) ''DP02_0126E'')))])"
  by code_simp

end
